theory Spec2Isabelle
  imports Main "HOL-Library.Sublist" "HOL-Library.AList"
begin

section \<open>Python strings\<close>

text \<open>
  A Python \<open>str\<close> is modelled as a \<open>string\<close>: every \<open>char\<close> stands for one code point
  below 256 (Latin-1).  The string methods the program calls are written out below on that
  range.
\<close>

definition isspace :: "char \<Rightarrow> bool" where
  \<comment> \<open>\<open>str.isspace\<close> on one code point below 256; also the class \<open>\s\<close> of \<open>re\<close>\<close>
  "isspace c = (of_char c \<in> {9::nat, 10, 11, 12, 13, 28, 29, 30, 31, 32, 133, 160})"

definition lower_char :: "char \<Rightarrow> char" where
  \<comment> \<open>\<open>str.lower\<close> on one code point below 256: A-Z, and 0xC0-0xDE except 0xD7, move up
     by 32, which sets bit 5 (clear in both ranges)\<close>
  "lower_char c =
     (let n = (of_char c :: nat)
      in if (65 \<le> n \<and> n \<le> 90) \<or> (192 \<le> n \<and> n \<le> 222 \<and> n \<noteq> 215)
         then (case c of Char b0 b1 b2 b3 b4 b5 b6 b7 \<Rightarrow> Char b0 b1 b2 b3 b4 True b6 b7)
         else c)"

definition lower :: "string \<Rightarrow> string" where
  "lower s = map lower_char s"

definition strip_chars :: "string \<Rightarrow> string \<Rightarrow> string" where
  \<comment> \<open>\<open>s.strip(cs)\<close>: drop the characters of \<open>cs\<close> at both ends\<close>
  "strip_chars cs s =
     rev (dropWhile (\<lambda>c. c \<in> set cs) (rev (dropWhile (\<lambda>c. c \<in> set cs) s)))"

definition strip :: "string \<Rightarrow> string" where
  \<comment> \<open>\<open>s.strip()\<close>: drop whitespace at both ends\<close>
  "strip s = rev (dropWhile isspace (rev (dropWhile isspace s)))"

fun split_on :: "char \<Rightarrow> string \<Rightarrow> string list" where
  \<comment> \<open>\<open>s.split(c)\<close> for a one-character separator: one more part than separators\<close>
  "split_on c [] = [[]]"
| "split_on c (x # xs) =
     (if x = c then [] # split_on c xs
      else (case split_on c xs of
              [] \<Rightarrow> [[x]]
            | p # ps \<Rightarrow> (x # p) # ps))"

fun join :: "string \<Rightarrow> string list \<Rightarrow> string" where
  \<comment> \<open>\<open>sep.join(parts)\<close>\<close>
  "join sep [] = []"
| "join sep [p] = p"
| "join sep (p # q # ps) = p @ sep @ join sep (q # ps)"

fun contains :: "string \<Rightarrow> string \<Rightarrow> bool" where
  \<comment> \<open>\<open>sub in s\<close>\<close>
  "contains [] sub = (sub = [])"
| "contains (x # xs) sub = (prefix sub (x # xs) \<or> contains xs sub)"

function words_ws :: "string \<Rightarrow> string list" where
  \<comment> \<open>\<open>s.split()\<close>: the maximal runs of non-whitespace characters\<close>
  "words_ws s =
     (case dropWhile isspace s of
        [] \<Rightarrow> []
      | x # xs \<Rightarrow>
          (x # takeWhile (\<lambda>c. \<not> isspace c) xs) # words_ws (dropWhile (\<lambda>c. \<not> isspace c) xs))"
  by pat_completeness auto
termination
proof (relation "measure length")
  show "wf (measure length)" by simp
next
  fix s :: string and x xs
  assume d: "dropWhile isspace s = x # xs"
  have "length (dropWhile (\<lambda>c. \<not> isspace c) xs) \<le> length xs"
    by (rule length_dropWhile_le)
  moreover have "length (x # xs) \<le> length s"
    unfolding d [symmetric] by (rule length_dropWhile_le)
  ultimately show "(dropWhile (\<lambda>c. \<not> isspace c) xs, s) \<in> measure length"
    by simp
qed

declare words_ws.simps [simp del]

function collapse_ws :: "string \<Rightarrow> string" where
  \<comment> \<open>\<open>re.sub(r"\s+", " ", s)\<close>: every maximal run of whitespace becomes one space\<close>
  "collapse_ws [] = []"
| "collapse_ws (x # xs) =
     (if isspace x then CHR '' '' # collapse_ws (dropWhile isspace xs)
      else x # collapse_ws xs)"
  by pat_completeness auto
termination
  by (relation "measure length") (auto simp: less_Suc_eq_le length_dropWhile_le)

function str_nat :: "nat \<Rightarrow> string" where
  \<comment> \<open>decimal digits of a natural number\<close>
  "str_nat n =
     (if n < 10 then [''0123456789'' ! n]
      else str_nat (n div 10) @ [''0123456789'' ! (n mod 10)])"
  by pat_completeness auto
termination
  by (relation "measure (\<lambda>n. n)") auto

definition str_int :: "int \<Rightarrow> string" where
  \<comment> \<open>\<open>str(i)\<close>, as an f-string formats an \<open>int\<close>\<close>
  "str_int i = (if i < 0 then CHR ''-'' # str_nat (nat (- i)) else str_nat (nat i))"

section \<open>Score to label\<close>

definition label_from_score :: "int \<Rightarrow> string" where
  "label_from_score score =
     (if score < 50 then ''LOW_QUALITY''
      else if score < 60 then ''SUSPICIOUS''
      else if score > 70 then ''GOOD_SAFE''
      else ''SUSPICIOUS'')"

section \<open>The collaborators outside the repository\<close>

text \<open>
  Three library calls decide what the pipeline sees: \<open>urllib.parse.urlparse\<close>,
  \<open>requests.get\<close> and the text extraction of \<open>BeautifulSoup\<close>.  They are parameters of the
  model, collected in the record \<open>env\<close>; every general theorem below holds for all of them.
\<close>

datatype exn = ValueError string

record url_parts =
  netloc :: string
  path :: string

datatype http_outcome =
    Raises string
  | Response int string string

text \<open>
  \<open>Raises m\<close>: \<open>requests.get\<close> raised an exception \<open>e\<close> with \<open>str(e) = m\<close> (a network error
  or a timeout).  \<open>Response c t u\<close>: it returned \<open>r\<close> with \<open>r.status_code = c\<close>,
  \<open>r.text = t\<close> and \<open>r.url = u\<close>.
\<close>

record env =
  urlparse :: "string \<Rightarrow> exn + url_parts"
  http_get :: "string list \<Rightarrow> string \<Rightarrow> http_outcome"
  visible_text :: "string \<Rightarrow> string"

text \<open>
  \<open>urlparse\<close> gives the two fields of the parse result that the program reads, or the
  exception raised.  \<open>http_get\<close> gives the outcome of a GET from the URLs requested before it
  and its own URL.  \<open>visible_text\<close> is \<open>get_text(" ", strip=True)\<close> of the parsed page after
  its script, style and noscript nodes have been removed.
\<close>

subsection \<open>A model of the URL parser of CPython\<close>

text \<open>
  A model of \<open>urllib.parse.urlparse\<close> (CPython 3.11), restricted to the fields \<open>netloc\<close>
  and \<open>path\<close>.  It follows \<open>urlsplit\<close> step by step.  The validation of a bracketed host
  as an IP literal, \<open>_check_bracketed_host\<close>, is a parameter: it returns the exception it
  raises, or \<open>None\<close>.  The check \<open>_checknetloc\<close> is left out: it cannot raise on code
  points below 256.
\<close>

definition c0_control_or_space :: "char \<Rightarrow> bool" where
  "c0_control_or_space c = ((of_char c :: nat) \<le> 32)"

definition unsafe_url_byte :: "char \<Rightarrow> bool" where
  "unsafe_url_byte c = (of_char c \<in> {9::nat, 13, 10})"

definition ascii_alpha :: "char \<Rightarrow> bool" where
  "ascii_alpha c =
     (let n = (of_char c :: nat) in (65 \<le> n \<and> n \<le> 90) \<or> (97 \<le> n \<and> n \<le> 122))"

definition scheme_chars :: string where
  "scheme_chars =
     ''abcdefghijklmnopqrstuvwxyz'' @ ''ABCDEFGHIJKLMNOPQRSTUVWXYZ'' @ ''0123456789'' @ ''+-.''"

definition uses_params :: "string list" where
  "uses_params =
     [[], ''ftp'', ''hdl'', ''prospero'', ''http'', ''imap'', ''https'', ''shttp'',
      ''rtsp'', ''rtspu'', ''sip'', ''sips'', ''mms'', ''sftp'', ''tel'']"

definition before_char :: "char \<Rightarrow> string \<Rightarrow> string" where
  \<comment> \<open>\<open>s.split(c, 1)[0]\<close>: the text before the first \<open>c\<close>, all of it when there is none\<close>
  "before_char c s = takeWhile (\<lambda>x. x \<noteq> c) s"

definition splitparams_path :: "string \<Rightarrow> string" where
  \<comment> \<open>first component of \<open>_splitparams\<close>: cut at the first \<open>;\<close> of the last path segment\<close>
  "splitparams_path url =
     (if CHR ''/'' \<in> set url
      then (let k = length url - length (takeWhile (\<lambda>x. x \<noteq> CHR ''/'') (rev url)) - 1;
                seg = drop k url
            in if CHR '';'' \<in> set seg then take k url @ before_char CHR '';'' seg else url)
      else before_char CHR '';'' url)"

definition bracketed_host :: "string \<Rightarrow> string" where
  \<comment> \<open>\<open>netloc.partition('[')[2].partition(']')[0]\<close>\<close>
  "bracketed_host nl =
     takeWhile (\<lambda>c. c \<noteq> CHR '']'') (drop 1 (dropWhile (\<lambda>c. c \<noteq> CHR ''['') nl))"

definition urlparse_cpython :: "(string \<Rightarrow> exn option) \<Rightarrow> string \<Rightarrow> exn + url_parts" where
  "urlparse_cpython check_bracketed_host url0 =
     (let url = filter (\<lambda>c. \<not> unsafe_url_byte c) (dropWhile c0_control_or_space url0);
          pre = before_char CHR '':'' url;
          has_scheme = (CHR '':'' \<in> set url \<and> pre \<noteq> [] \<and> ascii_alpha (hd url)
                        \<and> (\<forall>c \<in> set pre. c \<in> set scheme_chars));
          scheme = (if has_scheme then lower pre else []);
          url = (if has_scheme then drop (length pre + 1) url else url);
          is_delim = (\<lambda>c. c = CHR ''/'' \<or> c = CHR ''?'' \<or> c = CHR ''#'');
          has_netloc = (take 2 url = ''//'');
          nl = (if has_netloc then takeWhile (\<lambda>c. \<not> is_delim c) (drop 2 url) else []);
          url = (if has_netloc then dropWhile (\<lambda>c. \<not> is_delim c) (drop 2 url) else url)
      in if (CHR ''['' \<in> set nl \<and> CHR '']'' \<notin> set nl)
            \<or> (CHR '']'' \<in> set nl \<and> CHR ''['' \<notin> set nl)
         then Inl (ValueError ''Invalid IPv6 URL'')
         else (case (if CHR ''['' \<in> set nl \<and> CHR '']'' \<in> set nl
                     then check_bracketed_host (bracketed_host nl) else None) of
                 Some ex \<Rightarrow> Inl ex
               | None \<Rightarrow>
                   (let url = before_char CHR ''#'' url;
                        url = before_char CHR ''?'' url;
                        url = (if scheme \<in> set uses_params \<and> CHR '';'' \<in> set url
                               then splitparams_path url else url)
                    in Inr \<lparr>netloc = nl, path = url\<rparr>)))"

section \<open>Host normalisation and root domain\<close>

definition TRUSTED :: "string set" where
  "TRUSTED =
     {''youtube.com'', ''instagram.com'', ''facebook.com'',
      ''google.com'', ''amazon.com'', ''linkedin.com'',
      ''capitaloneshopping.com'', ''retailmenot.com'',
      ''ebay.com'', ''walmart.com'', ''target.com'', ''bestbuy.com''}"

definition host_from_parts :: "url_parts \<Rightarrow> string" where
  \<comment> \<open>the \<open>try\<close> block of \<open>extract_host\<close> once \<open>urlparse\<close> has returned\<close>
  "host_from_parts p =
     (let host = strip (if netloc p \<noteq> [] then netloc p else path p);
          host = last (split_on CHR ''@'' host);
          host = hd (split_on CHR '':'' host);
          host = strip_chars ''/'' (strip host);
          host = lower host
      in host)"

text \<open>
  The idiom \<open>x or ""\<close> of \<open>extract_host\<close>, \<open>base_domain\<close>, \<open>fetch_final\<close> and
  \<open>analyze_target\<close> replaces \<open>None\<close> only; on a \<open>str\<close> it is the identity and is left out.
  The \<open>try\<close> block of \<open>extract_host\<close> raises exactly when \<open>urlparse\<close> does: the exception
  is the \<open>Inl\<close> branch below, which the \<open>except\<close> clause turns into the fallback value.
\<close>

definition extract_host :: "env \<Rightarrow> string \<Rightarrow> string" where
  "extract_host e user_input =
     (let s = strip user_input
      in if s = [] then []
         else (let s_for_parse = (if \<not> contains s ''://'' then ''https://'' @ s else s)
               in case urlparse e s_for_parse of
                    Inr p \<Rightarrow> host_from_parts p
                  | Inl ex \<Rightarrow> strip_chars ''/'' (strip (lower s))))"

definition two_part_tlds :: "(string \<times> string) set" where
  "two_part_tlds =
     {(''co'', ''uk''), (''org'', ''uk''), (''ac'', ''uk''), (''gov'', ''uk''),
      (''com'', ''au''), (''net'', ''au''), (''org'', ''au''), (''co'', ''in'')}"

definition base_domain :: "string \<Rightarrow> string" where
  "base_domain host0 =
     (let host = strip_chars ''.'' (lower host0);
          parts = split_on CHR ''.'' host;
          n = length parts
      in if n \<le> 2 then host
         else if (parts ! (n - 2), parts ! (n - 1)) \<in> two_part_tlds \<and> n \<ge> 3
         then join ''.'' (drop (n - 3) parts)
         else join ''.'' (drop (n - 2) parts))"

definition is_trusted :: "env \<Rightarrow> string \<Rightarrow> bool" where
  "is_trusted e host =
     (let h = extract_host e host;
          b = base_domain h
      in h \<in> TRUSTED \<or> b \<in> TRUSTED)"

section \<open>Fetching\<close>

text \<open>
  \<open>fetch_final\<close> returns the triple \<open>(final_url, html, error)\<close> in two shapes only: the URL
  and the body with \<open>error = None\<close>, or \<open>(None, None, message)\<close>.  The two shapes are the
  constructors of \<open>fetch_result\<close>.  The URLs requested are appended to a log, which is
  threaded through.
\<close>

datatype fetch_result = Fetched string string | Failed string

definition fmt_last_err :: "string option \<Rightarrow> string" where
  \<comment> \<open>\<open>last_err\<close> inside the f-string; \<open>None\<close> prints as \<open>None\<close>\<close>
  "fmt_last_err le = (case le of None \<Rightarrow> ''None'' | Some m \<Rightarrow> m)"

fun try_candidates ::
  "(string list \<Rightarrow> string \<Rightarrow> http_outcome) \<Rightarrow> string list \<Rightarrow> string list \<Rightarrow> string option
     \<Rightarrow> fetch_result \<times> string list" where
  "try_candidates get [] log last_err =
     (Failed (''Cannot access website ('' @ fmt_last_err last_err @ '')''), log)"
| "try_candidates get (u # us) log last_err =
     (case get log u of
        Response status_code text url \<Rightarrow>
          (if status_code < 400 \<and> text \<noteq> [] then (Fetched url text, log @ [u])
           else try_candidates get us (log @ [u]) (Some (''HTTP '' @ str_int status_code)))
      | Raises m \<Rightarrow> try_candidates get us (log @ [u]) (Some m))"

definition fetch_final :: "env \<Rightarrow> string \<Rightarrow> string list \<Rightarrow> fetch_result \<times> string list" where
  "fetch_final e url_or_host log =
     (let host = extract_host e url_or_host
      in if host = [] then (Failed ''Empty input'', log)
         else (let candidates = (if contains url_or_host ''://'' then [strip url_or_host] else [])
                                @ [''https://'' @ host @ ''/'', ''http://'' @ host @ ''/'']
               in try_candidates (http_get e) candidates log None))"

section \<open>Content scoring\<close>

datatype pyval = PStr string | PInt int | PBool bool | PDict "(string \<times> pyval) list"

type_synonym pydict = "(string \<times> pyval) list"

record risk_result =
  risk :: int
  signals :: pydict

definition quick_risk_from_html :: "env \<Rightarrow> string \<Rightarrow> risk_result" where
  "quick_risk_from_html e html =
     (let text = lower (collapse_ws (visible_text e html));
          wc = int (length (words_ws text));
          sg = AList.update ''word_count'' (PInt wc) [];
          r1 = (if wc < 200 then 20 else 0);
          sg = AList.update ''thin_content'' (PBool (wc < 200)) sg;
          lorem = (contains text ''lorem ipsum'' \<or> contains text ''dolor sit amet'');
          r2 = (if lorem then r1 + 30 else r1);
          sg = AList.update ''lorem_ipsum'' (PBool lorem) sg
      in \<lparr>risk = r2, signals = sg\<rparr>)"

section \<open>The pipeline\<close>

definition analyze_target :: "env \<Rightarrow> string \<Rightarrow> string list \<Rightarrow> pydict \<times> string list" where
  "analyze_target e user_input log =
     (let host = extract_host e user_input;
          b = base_domain host
      in if is_trusted e host
         then ([(''status'', PStr ''OK''),
                (''input'', PStr user_input),
                (''host'', PStr host),
                (''base_domain'', PStr b),
                (''final_url'', PStr (''https://'' @ host @ ''/'')),
                (''final_host'', PStr host),
                (''final_base_domain'', PStr b),
                (''forced_good'', PBool True),
                (''score'', PInt 90),
                (''label'', PStr ''GOOD_SAFE''),
                (''reason'', PStr ''Trusted allowlist matched'')], log)
         else (case fetch_final e user_input log of
                 (Failed err, log') \<Rightarrow>
                   ([(''status'', PStr ''ERROR''),
                     (''input'', PStr user_input),
                     (''host'', PStr host),
                     (''base_domain'', PStr b),
                     (''error'', PStr err)], log')
               | (Fetched final_url html, log') \<Rightarrow>
                   (let final_host = extract_host e final_url;
                        final_base = base_domain final_host
                    in if is_trusted e final_host
                       then ([(''status'', PStr ''OK''),
                              (''input'', PStr user_input),
                              (''host'', PStr host),
                              (''base_domain'', PStr b),
                              (''final_url'', PStr final_url),
                              (''final_host'', PStr final_host),
                              (''final_base_domain'', PStr final_base),
                              (''forced_good'', PBool True),
                              (''score'', PInt 90),
                              (''label'', PStr ''GOOD_SAFE''),
                              (''reason'', PStr ''Final redirected domain is trusted'')], log')
                       else (let res = quick_risk_from_html e html;
                                 no_https = (\<not> prefix ''https://'' (lower final_url));
                                 rk = (if no_https then risk res + 25 else risk res);
                                 sg = AList.update ''no_https'' (PBool no_https) (signals res);
                                 score = max 0 (100 - rk);
                                 label = label_from_score score
                             in ([(''status'', PStr ''OK''),
                                  (''input'', PStr user_input),
                                  (''host'', PStr host),
                                  (''base_domain'', PStr b),
                                  (''final_url'', PStr final_url),
                                  (''final_host'', PStr final_host),
                                  (''final_base_domain'', PStr final_base),
                                  (''forced_good'', PBool False),
                                  (''score'', PInt score),
                                  (''label'', PStr label),
                                  (''signals'', PDict sg),
                                  (''reason'', PStr (''Risk points: '' @ str_int rk
                                     @ ''. Evaluated final URL + root domain context.''))],
                                 log')))))"

section \<open>Notions used to state the properties\<close>

definition total_risk :: "env \<Rightarrow> string \<Rightarrow> string \<Rightarrow> int" where
  \<comment> \<open>the scorer's risk plus 25 when the lowercased final URL does not start with https://\<close>
  "total_risk e final_url html =
     risk (quick_risk_from_html e html)
       + (if prefix ''https://'' (lower final_url) then 0 else 25)"

definition candidate_urls :: "env \<Rightarrow> string \<Rightarrow> string list" where
  \<comment> \<open>the list \<open>candidates\<close> that \<open>fetch_final\<close> builds for an input with a non-empty host\<close>
  "candidate_urls e url_or_host =
     (if contains url_or_host ''://'' then [strip url_or_host] else [])
     @ [''https://'' @ extract_host e url_or_host @ ''/'',
        ''http://'' @ extract_host e url_or_host @ ''/'']"

definition outcome_at ::
  "(string list \<Rightarrow> string \<Rightarrow> http_outcome) \<Rightarrow> string list \<Rightarrow> string list \<Rightarrow> nat \<Rightarrow> http_outcome" where
  \<comment> \<open>the outcome of the request for candidate number \<open>k\<close>, if the loop gets that far\<close>
  "outcome_at get log cands k = get (log @ take k cands) (cands ! k)"

definition accepted :: "http_outcome \<Rightarrow> bool" where
  \<comment> \<open>the test under which the loop of \<open>fetch_final\<close> returns\<close>
  "accepted out =
     (case out of Raises m \<Rightarrow> False | Response status_code text url \<Rightarrow> status_code < 400 \<and> text \<noteq> [])"

definition error_text :: "http_outcome \<Rightarrow> string" where
  \<comment> \<open>what the loop stores in \<open>last_err\<close> for a candidate it does not accept\<close>
  "error_text out =
     (case out of Raises m \<Rightarrow> m | Response status_code text url \<Rightarrow> ''HTTP '' @ str_int status_code)"

definition result_score :: "pydict \<Rightarrow> int" where
  \<comment> \<open>the \<open>score\<close> field of a result\<close>
  "result_score r = (case map_of r ''score'' of Some (PInt n) \<Rightarrow> n | _ \<Rightarrow> 0)"

definition signal_on :: "pydict \<Rightarrow> string \<Rightarrow> bool" where
  \<comment> \<open>the signal \<open>k\<close> is present and true in the \<open>signals\<close> field of a result\<close>
  "signal_on r k =
     (case map_of r ''signals'' of
        Some (PDict sg) \<Rightarrow> map_of sg k = Some (PBool True)
      | _ \<Rightarrow> False)"

definition parse_input :: "string \<Rightarrow> string" where
  \<comment> \<open>the string that \<open>extract_host\<close> hands to the parser, for an input that is not blank\<close>
  "parse_input user_input =
     (let s = strip user_input in if \<not> contains s ''://'' then ''https://'' @ s else s)"

definition has_authority :: "env \<Rightarrow> string \<Rightarrow> bool" where
  \<comment> \<open>the input is not blank and the parser finds a non-empty authority (\<open>netloc\<close>) in it\<close>
  "has_authority e user_input =
     (strip user_input \<noteq> []
      \<and> (case urlparse e (parse_input user_input) of
             Inr p \<Rightarrow> netloc p \<noteq> []
           | Inl ex \<Rightarrow> False))"

definition normal_host :: "string \<Rightarrow> bool" where
  \<comment> \<open>lowercase, no whitespace at the ends, none of the characters \<open>/ ? # : @\<close>, no tab,
     carriage return or newline\<close>
  "normal_host h =
     (lower h = h \<and> strip h = h
      \<and> (\<forall>c \<in> set h. c \<notin> set ''/?#:@'' \<and> \<not> unsafe_url_byte c))"

definition refuse_bracketed_host :: "string \<Rightarrow> exn option" where
  \<comment> \<open>a check that refuses every bracketed host\<close>
  "refuse_bracketed_host h = Some (ValueError ''invalid bracketed host'')"

text \<open>
  The concrete environments below use CPython's parser with a check that refuses every
  bracketed host, where CPython accepts the IPv6 and IPvFuture literals.  None of the inputs
  evaluated in them has a bracketed host.
\<close>

definition env_offline :: env where
  \<comment> \<open>CPython's parser, a network on which every request raises, pages of plain text\<close>
  "env_offline =
     \<lparr>urlparse = urlparse_cpython refuse_bracketed_host,
      http_get = (\<lambda>log u. Raises ''connection refused''),
      visible_text = strip\<rparr>"

definition env_page :: "string \<Rightarrow> string \<Rightarrow> env" where
  \<comment> \<open>CPython's parser, a network answering every request with status 200, the given final
     URL and the given body, pages of plain text\<close>
  "env_page final_url body =
     \<lparr>urlparse = urlparse_cpython refuse_bracketed_host,
      http_get = (\<lambda>log u. Response 200 body final_url),
      visible_text = strip\<rparr>"

section \<open>The four ways through the pipeline\<close>

lemma analyze_trusted:
  assumes "is_trusted e (extract_host e user_input)"
  shows "analyze_target e user_input log =
     ([(''status'', PStr ''OK''),
       (''input'', PStr user_input),
       (''host'', PStr (extract_host e user_input)),
       (''base_domain'', PStr (base_domain (extract_host e user_input))),
       (''final_url'', PStr (''https://'' @ extract_host e user_input @ ''/'')),
       (''final_host'', PStr (extract_host e user_input)),
       (''final_base_domain'', PStr (base_domain (extract_host e user_input))),
       (''forced_good'', PBool True),
       (''score'', PInt 90),
       (''label'', PStr ''GOOD_SAFE''),
       (''reason'', PStr ''Trusted allowlist matched'')], log)"
  using assms by (simp add: analyze_target_def Let_def)

lemma analyze_failed:
  assumes "\<not> is_trusted e (extract_host e user_input)"
    and "fetch_final e user_input log = (Failed err, log')"
  shows "analyze_target e user_input log =
     ([(''status'', PStr ''ERROR''),
       (''input'', PStr user_input),
       (''host'', PStr (extract_host e user_input)),
       (''base_domain'', PStr (base_domain (extract_host e user_input))),
       (''error'', PStr err)], log')"
  using assms by (simp add: analyze_target_def Let_def)

lemma analyze_redirect_trusted:
  assumes "\<not> is_trusted e (extract_host e user_input)"
    and "fetch_final e user_input log = (Fetched final_url html, log')"
    and "is_trusted e (extract_host e final_url)"
  shows "analyze_target e user_input log =
     ([(''status'', PStr ''OK''),
       (''input'', PStr user_input),
       (''host'', PStr (extract_host e user_input)),
       (''base_domain'', PStr (base_domain (extract_host e user_input))),
       (''final_url'', PStr final_url),
       (''final_host'', PStr (extract_host e final_url)),
       (''final_base_domain'', PStr (base_domain (extract_host e final_url))),
       (''forced_good'', PBool True),
       (''score'', PInt 90),
       (''label'', PStr ''GOOD_SAFE''),
       (''reason'', PStr ''Final redirected domain is trusted'')], log')"
  using assms by (simp add: analyze_target_def Let_def)

lemma analyze_scored:
  assumes "\<not> is_trusted e (extract_host e user_input)"
    and "fetch_final e user_input log = (Fetched final_url html, log')"
    and "\<not> is_trusted e (extract_host e final_url)"
  shows "analyze_target e user_input log =
     ([(''status'', PStr ''OK''),
       (''input'', PStr user_input),
       (''host'', PStr (extract_host e user_input)),
       (''base_domain'', PStr (base_domain (extract_host e user_input))),
       (''final_url'', PStr final_url),
       (''final_host'', PStr (extract_host e final_url)),
       (''final_base_domain'', PStr (base_domain (extract_host e final_url))),
       (''forced_good'', PBool False),
       (''score'', PInt (max 0 (100 - total_risk e final_url html))),
       (''label'', PStr (label_from_score (max 0 (100 - total_risk e final_url html)))),
       (''signals'', PDict (AList.update ''no_https''
                             (PBool (\<not> prefix ''https://'' (lower final_url)))
                             (signals (quick_risk_from_html e html)))),
       (''reason'', PStr (''Risk points: '' @ str_int (total_risk e final_url html)
                           @ ''. Evaluated final URL + root domain context.''))], log')"
  using assms by (simp add: analyze_target_def Let_def total_risk_def)

text \<open>Every run takes exactly one of the four ways.\<close>

lemma analyze_cases:
  obtains (trusted) "is_trusted e (extract_host e user_input)"
  | (failed) err log' where "\<not> is_trusted e (extract_host e user_input)"
      "fetch_final e user_input log = (Failed err, log')"
  | (redirect) final_url html log' where "\<not> is_trusted e (extract_host e user_input)"
      "fetch_final e user_input log = (Fetched final_url html, log')"
      "is_trusted e (extract_host e final_url)"
  | (scored) final_url html log' where "\<not> is_trusted e (extract_host e user_input)"
      "fetch_final e user_input log = (Fetched final_url html, log')"
      "\<not> is_trusted e (extract_host e final_url)"
proof (cases "is_trusted e (extract_host e user_input)")
  case True
  then show ?thesis by (rule trusted)
next
  case nt: False
  obtain fr log' where f: "fetch_final e user_input log = (fr, log')"
    by (cases "fetch_final e user_input log")
  show ?thesis
  proof (cases fr)
    case (Failed err)
    with nt f show ?thesis by (auto intro: failed)
  next
    case (Fetched final_url html)
    with nt f show ?thesis
      by (cases "is_trusted e (extract_host e final_url)") (auto intro: redirect scored)
  qed
qed

lemma signals_quick_risk:
  "signals (quick_risk_from_html e html) =
     [(''word_count'', PInt (int (length (words_ws (lower (collapse_ws (visible_text e html))))))),
      (''thin_content'', PBool (length (words_ws (lower (collapse_ws (visible_text e html)))) < 200)),
      (''lorem_ipsum'', PBool (contains (lower (collapse_ws (visible_text e html))) ''lorem ipsum''
                              \<or> contains (lower (collapse_ws (visible_text e html))) ''dolor sit amet''))]"
  by (simp add: quick_risk_from_html_def Let_def)

lemma risk_quick_risk:
  "risk (quick_risk_from_html e html) =
     (if length (words_ws (lower (collapse_ws (visible_text e html)))) < 200 then 20 else 0)
     + (if contains (lower (collapse_ws (visible_text e html))) ''lorem ipsum''
           \<or> contains (lower (collapse_ws (visible_text e html))) ''dolor sit amet'' then 30 else 0)"
  by (simp add: quick_risk_from_html_def Let_def)

section \<open>Supporting lemmas\<close>

subsection \<open>Substrings and blank strings\<close>

lemma contains_iff: "contains s sub \<longleftrightarrow> (\<exists>pre post. s = pre @ sub @ post)"
proof (induction s)
  case Nil
  then show ?case by simp
next
  case (Cons x xs)
  show ?case
  proof
    assume "contains (x # xs) sub"
    then consider "prefix sub (x # xs)" | "contains xs sub" by auto
    then show "\<exists>pre post. x # xs = pre @ sub @ post"
    proof cases
      case 1
      then obtain post where "x # xs = sub @ post" by (auto simp: prefix_def)
      then have "x # xs = [] @ sub @ post" by simp
      then show ?thesis by blast
    next
      case 2
      with Cons.IH obtain pre post where "xs = pre @ sub @ post" by blast
      then have "x # xs = (x # pre) @ sub @ post" by simp
      then show ?thesis by blast
    qed
  next
    assume "\<exists>pre post. x # xs = pre @ sub @ post"
    then obtain pre post where eq: "x # xs = pre @ sub @ post" by blast
    show "contains (x # xs) sub"
    proof (cases pre)
      case Nil
      with eq have "prefix sub (x # xs)" by (simp add: prefix_def)
      then show ?thesis by simp
    next
      case (Cons y ys)
      with eq have "xs = ys @ sub @ post" by simp
      with Cons.IH have "contains xs sub" by blast
      then show ?thesis by simp
    qed
  qed
qed

lemma strip_eq_Nil_iff: "strip s = [] \<longleftrightarrow> (\<forall>c \<in> set s. isspace c)"
proof
  assume "strip s = []"
  then have a: "\<forall>x \<in> set (dropWhile isspace s). isspace x"
    by (simp add: strip_def dropWhile_eq_Nil_conv)
  have "dropWhile isspace s = []"
  proof (rule ccontr)
    assume ne: "dropWhile isspace s \<noteq> []"
    then have "\<not> isspace (hd (dropWhile isspace s))" by (rule hd_dropWhile)
    moreover from ne have "hd (dropWhile isspace s) \<in> set (dropWhile isspace s)" by simp
    ultimately show False using a by blast
  qed
  then show "\<forall>c \<in> set s. isspace c" by (simp add: dropWhile_eq_Nil_conv)
next
  assume "\<forall>c \<in> set s. isspace c"
  then have "dropWhile isspace s = []" by (simp add: dropWhile_eq_Nil_conv)
  then show "strip s = []" by (simp only: strip_def) simp
qed

lemma words_ws_no_space: "w \<in> set (words_ws s) \<Longrightarrow> w \<noteq> [] \<and> (\<forall>c \<in> set w. \<not> isspace c)"
proof (induction s arbitrary: w rule: words_ws.induct)
  case (1 s)
  show ?case
  proof (cases "dropWhile isspace s")
    case Nil
    with "1.prems" show ?thesis by (simp add: words_ws.simps [of s])
  next
    case (Cons x xs)
    have "\<not> isspace (hd (dropWhile isspace s))"
      by (rule hd_dropWhile) (simp add: Cons)
    then have x: "\<not> isspace x" by (simp add: Cons)
    from "1.prems" Cons
    consider "w = x # takeWhile (\<lambda>c. \<not> isspace c) xs"
      | "w \<in> set (words_ws (dropWhile (\<lambda>c. \<not> isspace c) xs))"
      by (auto simp: words_ws.simps [of s])
    then show ?thesis
    proof cases
      case 1
      with x show ?thesis by (auto dest: set_takeWhileD)
    next
      case 2
      with "1.IH" [OF Cons] show ?thesis by blast
    qed
  qed
qed

subsection \<open>Lowercasing\<close>

lemma lower_char_cases:
  obtains "lower_char c = c"
  | b0 b1 b2 b3 b4 b5 b6 b7 where "c = Char b0 b1 b2 b3 b4 b5 b6 b7"
      "lower_char c = Char b0 b1 b2 b3 b4 True b6 b7"
      "(65 \<le> (of_char c :: nat) \<and> (of_char c :: nat) \<le> 90)
       \<or> (192 \<le> (of_char c :: nat) \<and> (of_char c :: nat) \<le> 222 \<and> (of_char c :: nat) \<noteq> 215)"
proof (cases "(65 \<le> (of_char c :: nat) \<and> (of_char c :: nat) \<le> 90)
       \<or> (192 \<le> (of_char c :: nat) \<and> (of_char c :: nat) \<le> 222 \<and> (of_char c :: nat) \<noteq> 215)")
  case True
  obtain b0 b1 b2 b3 b4 b5 b6 b7 where c: "c = Char b0 b1 b2 b3 b4 b5 b6 b7"
    by (cases c)
  from True have "lower_char c = (case c of Char b0 b1 b2 b3 b4 b5 b6 b7 \<Rightarrow>
      Char b0 b1 b2 b3 b4 True b6 b7)"
    by (simp only: lower_char_def Let_def if_True)
  then have "lower_char c = Char b0 b1 b2 b3 b4 True b6 b7"
    by (simp only: c char.case)
  with c True that(2) show ?thesis by blast
next
  case False
  then have "lower_char c = c"
    by (simp only: lower_char_def Let_def if_False)
  with that(1) show ?thesis by blast
qed

lemma lower_char_bit5:
  "lower_char (Char b0 b1 b2 b3 b4 True b6 b7) = Char b0 b1 b2 b3 b4 True b6 b7"
  by (simp only: lower_char_def Let_def char.case if_cancel)

lemma lower_char_idem: "lower_char (lower_char c) = lower_char c"
proof (cases c rule: lower_char_cases)
  case 1
  then show ?thesis by simp
next
  case (2 b0 b1 b2 b3 b4 b5 b6 b7)
  then show ?thesis by (simp only: lower_char_bit5)
qed

lemma lower_char_dot: "lower_char c = CHR ''.'' \<longleftrightarrow> c = CHR ''.''"
proof
  assume "c = CHR ''.''"
  then show "lower_char c = CHR ''.''" by (simp add: lower_char_def)
next
  assume l: "lower_char c = CHR ''.''"
  show "c = CHR ''.''"
  proof (cases c rule: lower_char_cases)
    case 1
    with l show ?thesis by simp
  next
    case (2 b0 b1 b2 b3 b4 b5 b6 b7)
    with l have "c = Char False True True True False b5 False False" by simp
    then have "c = CHR 0x0E \<or> c = CHR ''.''" by (cases b5) simp_all
    with 2(3) show ?thesis by auto
  qed
qed

subsection \<open>Splitting and joining\<close>

lemma split_on_not_Nil: "split_on c s \<noteq> []"
  by (induction s) (auto split: list.splits)

lemma join_Cons_Cons: "join sep ((x # p) # ps) = x # join sep (p # ps)"
  by (cases ps) simp_all

lemma join_split_on: "join [c] (split_on c s) = s"
proof (induction s)
  case Nil
  then show ?case by simp
next
  case (Cons x xs)
  obtain p ps where sp: "split_on c xs = p # ps"
    using split_on_not_Nil [of c xs] by (cases "split_on c xs") auto
  with Cons show ?case by (simp add: join_Cons_Cons)
qed

lemma split_on_parts_free: "p \<in> set (split_on c s) \<Longrightarrow> c \<notin> set p"
proof (induction s arbitrary: p)
  case Nil
  then show ?case by simp
next
  case (Cons x xs)
  obtain q qs where sp: "split_on c xs = q # qs"
    using split_on_not_Nil [of c xs] by (cases "split_on c xs") auto
  with Cons.IH have "c \<notin> set q" "\<And>r. r \<in> set qs \<Longrightarrow> c \<notin> set r" by auto
  with Cons.prems sp show ?case by (auto split: if_splits)
qed

lemma split_on_free: "c \<notin> set p \<Longrightarrow> split_on c p = [p]"
  by (induction p) auto

lemma split_on_append: "c \<notin> set p \<Longrightarrow> split_on c (p @ c # t) = p # split_on c t"
  by (induction p) auto

lemma split_on_join:
  "ps \<noteq> [] \<Longrightarrow> \<forall>p \<in> set ps. c \<notin> set p \<Longrightarrow> split_on c (join [c] ps) = ps"
proof (induction "[c]" ps rule: join.induct)
  case 1
  then show ?case by simp
next
  case (2 p)
  then show ?case by (simp add: split_on_free)
next
  case (3 p q ps)
  then show ?case by (simp add: split_on_append)
qed

lemma split_on_single_Nil: "split_on c s = [[]] \<Longrightarrow> s = []"
  by (cases s) (auto split: if_splits list.splits simp: split_on_not_Nil)

lemma last_split_on_Nil:
  "last (split_on c s) = [] \<longleftrightarrow> s = [] \<or> last s = c"
proof (induction s)
  case Nil
  then show ?case by simp
next
  case (Cons x xs)
  obtain q qs where sp: "split_on c xs = q # qs"
    using split_on_not_Nil [of c xs] by (cases "split_on c xs") auto
  show ?case
  proof (cases "xs = []")
    case True
    then show ?thesis by auto
  next
    case False
    with split_on_single_Nil [of c xs] have ne: "split_on c xs \<noteq> [[]]" by blast
    show ?thesis
    proof (cases "x = c")
      case True
      with Cons sp False show ?thesis by simp
    next
      case xc: False
      show ?thesis
      proof (cases qs)
        case Nil
        with sp ne have "q \<noteq> []" by auto
        with Cons sp False Nil xc show ?thesis by simp
      next
        case (Cons r rs)
        with Cons.IH sp False xc show ?thesis by simp
      qed
    qed
  qed
qed

lemma length_join_drop: "length (join sep (drop m ps)) \<le> length (join sep ps)"
proof (induction sep ps arbitrary: m rule: join.induct)
  case (1 sep)
  then show ?case by simp
next
  case (2 sep p)
  then show ?case by (cases m) simp_all
next
  case (3 sep p q ps)
  show ?case
  proof (cases m)
    case 0
    then show ?thesis by simp
  next
    case (Suc k)
    with "3.IH" [of k] show ?thesis by simp
  qed
qed

lemma set_join: "set (join sep ps) \<subseteq> set sep \<union> \<Union> (set ` set ps)"
  by (induction sep ps rule: join.induct) auto

lemma hd_join:
  "p \<noteq> [] \<Longrightarrow> hd (join sep (p # ps)) = hd p"
  by (cases ps) simp_all

lemma join_not_Nil: "ps \<noteq> [] \<Longrightarrow> last ps \<noteq> [] \<Longrightarrow> join sep ps \<noteq> []"
  by (induction sep ps rule: join.induct) auto

lemma last_join:
  "ps \<noteq> [] \<Longrightarrow> last ps \<noteq> [] \<Longrightarrow> last (join sep ps) = last (last ps)"
proof (induction sep ps rule: join.induct)
  case (1 sep)
  then show ?case by simp
next
  case (2 sep p)
  then show ?case by simp
next
  case (3 sep p q ps)
  then have "join sep (q # ps) \<noteq> []" by (intro join_not_Nil) auto
  with 3 show ?case by simp
qed

subsection \<open>Stripping\<close>

lemma last_dropWhile: "dropWhile P xs \<noteq> [] \<Longrightarrow> last (dropWhile P xs) = last xs"
proof -
  assume ne: "dropWhile P xs \<noteq> []"
  have "last (takeWhile P xs @ dropWhile P xs) = last (dropWhile P xs)"
    using ne by (rule last_appendR)
  then show ?thesis by simp
qed

lemma strip_chars_id:
  assumes "s = [] \<or> (hd s \<notin> set cs \<and> last s \<notin> set cs)"
  shows "strip_chars cs s = s"
proof (cases s)
  case Nil
  then show ?thesis by (simp add: strip_chars_def)
next
  case (Cons x xs)
  with assms have h: "x \<notin> set cs" and l: "last (x # xs) \<notin> set cs" by auto
  from h have 1: "dropWhile (\<lambda>c. c \<in> set cs) (x # xs) = x # xs" by simp
  have "hd (rev (x # xs)) = last (x # xs)" by (rule hd_rev)
  with l have "hd (rev (x # xs)) \<notin> set cs" by simp
  then have 2: "dropWhile (\<lambda>c. c \<in> set cs) (rev (x # xs)) = rev (x # xs)"
    by (cases "rev (x # xs)") auto
  show ?thesis unfolding strip_chars_def Cons 1 2 by simp
qed

lemma strip_chars_ends:
  "strip_chars cs s = []
   \<or> (hd (strip_chars cs s) \<notin> set cs \<and> last (strip_chars cs s) \<notin> set cs)"
proof (cases "strip_chars cs s = []")
  case True
  then show ?thesis by simp
next
  case False
  let ?P = "\<lambda>c. c \<in> set cs"
  let ?d = "dropWhile ?P s"
  let ?r = "dropWhile ?P (rev ?d)"
  have s: "strip_chars cs s = rev ?r" by (simp add: strip_chars_def)
  from False have r: "?r \<noteq> []" by (simp add: s)
  have d: "?d \<noteq> []"
  proof
    assume e: "?d = []"
    have "?r = []" unfolding e by simp
    with r show False by contradiction
  qed
  have "\<not> ?P (hd ?r)" using r by (rule hd_dropWhile)
  moreover have "last (rev ?r) = hd ?r" using r by (simp add: last_rev)
  ultimately have l: "last (strip_chars cs s) \<notin> set cs" by (simp add: s)
  have "\<not> ?P (hd ?d)" using d by (rule hd_dropWhile)
  moreover have "hd (rev ?r) = last ?r" using r by (simp add: hd_rev)
  moreover have "last ?r = last (rev ?d)" using r by (rule last_dropWhile)
  moreover have "last (rev ?d) = hd ?d" using d by (simp add: last_rev)
  ultimately have h: "hd (strip_chars cs s) \<notin> set cs" by (simp add: s)
  from h l show ?thesis by simp
qed

lemma set_strip_chars: "set (strip_chars cs s) \<subseteq> set s"
proof
  fix x assume "x \<in> set (strip_chars cs s)"
  then have "x \<in> set (dropWhile (\<lambda>c. c \<in> set cs) (rev (dropWhile (\<lambda>c. c \<in> set cs) s)))"
    by (simp add: strip_chars_def)
  then have "x \<in> set (rev (dropWhile (\<lambda>c. c \<in> set cs) s))" by (rule set_dropWhileD)
  then have "x \<in> set (dropWhile (\<lambda>c. c \<in> set cs) s)" by simp
  then show "x \<in> set s" by (rule set_dropWhileD)
qed

lemma length_strip_chars_less:
  "s \<noteq> [] \<Longrightarrow> hd s \<in> set cs \<Longrightarrow> length (strip_chars cs s) < length s"
proof -
  assume "s \<noteq> []" "hd s \<in> set cs"
  then obtain x xs where s: "s = x # xs" and x: "x \<in> set cs" by (cases s) auto
  have "length (strip_chars cs s) \<le> length (dropWhile (\<lambda>c. c \<in> set cs) s)"
    unfolding strip_chars_def length_rev
    using length_dropWhile_le [of "\<lambda>c. c \<in> set cs" "rev (dropWhile (\<lambda>c. c \<in> set cs) s)"]
    by simp
  also have "\<dots> \<le> length xs" using x by (simp add: s length_dropWhile_le)
  finally show ?thesis by (simp add: s)
qed

subsection \<open>The root domain\<close>

lemma set_part_join: "p \<in> set ps \<Longrightarrow> set p \<subseteq> set (join sep ps)"
  by (induction sep ps rule: join.induct) auto

lemma lower_fixed: "\<forall>c \<in> set s. lower_char c = c \<Longrightarrow> lower s = s"
  by (simp add: lower_def map_idI)

lemma lower_chars_fixed: "c \<in> set (lower s) \<Longrightarrow> lower_char c = c"
  by (auto simp: lower_def lower_char_idem)

text \<open>The two shapes of a root domain: the stripped host, or its last two or three labels.\<close>

lemma base_domain_form:
  obtains (short) "length (split_on CHR ''.'' (strip_chars ''.'' (lower h))) \<le> 2"
      "base_domain h = strip_chars ''.'' (lower h)"
  | (two) "2 < length (split_on CHR ''.'' (strip_chars ''.'' (lower h)))"
      "base_domain h = join ''.''
         (drop (length (split_on CHR ''.'' (strip_chars ''.'' (lower h))) - 2)
            (split_on CHR ''.'' (strip_chars ''.'' (lower h))))"
  | (three) "2 < length (split_on CHR ''.'' (strip_chars ''.'' (lower h)))"
      "(split_on CHR ''.'' (strip_chars ''.'' (lower h))
          ! (length (split_on CHR ''.'' (strip_chars ''.'' (lower h))) - 2),
        split_on CHR ''.'' (strip_chars ''.'' (lower h))
          ! (length (split_on CHR ''.'' (strip_chars ''.'' (lower h))) - 1)) \<in> two_part_tlds"
      "base_domain h = join ''.''
         (drop (length (split_on CHR ''.'' (strip_chars ''.'' (lower h))) - 3)
            (split_on CHR ''.'' (strip_chars ''.'' (lower h))))"
proof -
  let ?parts = "split_on CHR ''.'' (strip_chars ''.'' (lower h))"
  let ?n = "length ?parts"
  consider "?n \<le> 2"
    | "2 < ?n" "(?parts ! (?n - 2), ?parts ! (?n - 1)) \<in> two_part_tlds"
    | "2 < ?n" "(?parts ! (?n - 2), ?parts ! (?n - 1)) \<notin> two_part_tlds"
    by linarith
  then show thesis
  proof cases
    case 1
    then have "base_domain h = strip_chars ''.'' (lower h)"
      by (simp add: base_domain_def Let_def)
    with 1 show ?thesis by (rule short)
  next
    case 2
    then have "base_domain h = join ''.'' (drop (?n - 3) ?parts)"
      by (simp add: base_domain_def Let_def)
    with 2 show ?thesis by (rule three)
  next
    case 3
    then have "base_domain h = join ''.'' (drop (?n - 2) ?parts)"
      by (simp add: base_domain_def Let_def)
    with 3(1) show ?thesis by (rule two)
  qed
qed

lemma length_base_domain: "length (base_domain h) \<le> length (strip_chars ''.'' (lower h))"
proof (rule base_domain_form [of h])
  assume "base_domain h = strip_chars ''.'' (lower h)"
  then show ?thesis by simp
next
  assume "base_domain h = join ''.''
         (drop (length (split_on CHR ''.'' (strip_chars ''.'' (lower h))) - 2)
            (split_on CHR ''.'' (strip_chars ''.'' (lower h))))"
  with length_join_drop [of "''.''" _ "split_on CHR ''.'' (strip_chars ''.'' (lower h))"]
  show ?thesis by (simp add: join_split_on)
next
  assume "base_domain h = join ''.''
         (drop (length (split_on CHR ''.'' (strip_chars ''.'' (lower h))) - 3)
            (split_on CHR ''.'' (strip_chars ''.'' (lower h))))"
  with length_join_drop [of "''.''" _ "split_on CHR ''.'' (strip_chars ''.'' (lower h))"]
  show ?thesis by (simp add: join_split_on)
qed

lemma set_base_domain: "set (base_domain h) \<subseteq> insert CHR ''.'' (set (lower h))"
proof -
  let ?host = "strip_chars ''.'' (lower h)"
  let ?parts = "split_on CHR ''.'' ?host"
  have host: "set ?host \<subseteq> set (lower h)" by (rule set_strip_chars)
  have parts: "\<Union> (set ` set ?parts) \<subseteq> set ?host"
    using set_part_join [of _ ?parts "''.''"] by (auto simp: join_split_on)
  have sel: "set (join ''.'' (drop m ?parts)) \<subseteq> insert CHR ''.'' (set (lower h))" for m
  proof -
    have "set (join ''.'' (drop m ?parts)) \<subseteq> set ''.'' \<union> \<Union> (set ` set (drop m ?parts))"
      by (rule set_join)
    also have "\<dots> \<subseteq> set ''.'' \<union> \<Union> (set ` set ?parts)"
      using set_drop_subset [of m ?parts] by blast
    also have "\<dots> \<subseteq> insert CHR ''.'' (set (lower h))"
      using parts host by auto
    finally show ?thesis .
  qed
  show ?thesis
  proof (rule base_domain_form [of h])
    assume "base_domain h = ?host"
    with host show ?thesis by auto
  next
    assume "base_domain h = join ''.'' (drop (length ?parts - 2) ?parts)"
    with sel show ?thesis by simp
  next
    assume "base_domain h = join ''.'' (drop (length ?parts - 3) ?parts)"
    with sel show ?thesis by simp
  qed
qed

lemma lower_base_domain: "lower (base_domain h) = base_domain h"
proof (rule lower_fixed, rule ballI)
  fix c assume "c \<in> set (base_domain h)"
  with set_base_domain [of h] have "c = CHR ''.'' \<or> c \<in> set (lower h)" by auto
  then show "lower_char c = c"
    by (auto simp: lower_chars_fixed lower_char_dot)
qed

lemma base_domain_of_labels:
  assumes free: "\<forall>p \<in> set sel. CHR ''.'' \<notin> set p"
    and ne: "sel \<noteq> []" and first: "hd sel \<noteq> []" and final: "last sel \<noteq> []"
    and low: "lower (join ''.'' sel) = join ''.'' sel"
    and len: "length sel \<le> 2 \<or> (length sel = 3 \<and> (sel ! 1, sel ! 2) \<in> two_part_tlds)"
  shows "base_domain (join ''.'' sel) = join ''.'' sel"
proof -
  let ?r = "join ''.'' sel"
  obtain p ps where sel: "sel = p # ps" using ne by (cases sel) auto
  with first have p: "p \<noteq> []" by simp
  from free sel have "CHR ''.'' \<notin> set p" by simp
  with p have "hd p \<noteq> CHR ''.''" by (cases p) auto
  with p have h: "hd ?r \<noteq> CHR ''.''" by (simp add: sel hd_join)
  from free ne have "CHR ''.'' \<notin> set (last sel)" by simp
  with last_in_set [OF final] have "last (last sel) \<noteq> CHR ''.''"
    by metis
  with ne final have l: "last ?r \<noteq> CHR ''.''" by (simp add: last_join)
  from h l have strip: "strip_chars ''.'' ?r = ?r" by (intro strip_chars_id) simp
  from ne free have split: "split_on CHR ''.'' ?r = sel" by (rule split_on_join)
  from len show ?thesis
  proof
    assume "length sel \<le> 2"
    then show ?thesis by (simp add: base_domain_def low strip split)
  next
    assume "length sel = 3 \<and> (sel ! 1, sel ! 2) \<in> two_part_tlds"
    then show ?thesis by (simp add: base_domain_def low strip split)
  qed
qed

lemma stripped_host_last_label:
  assumes "2 < length (split_on CHR ''.'' (strip_chars ''.'' (lower h)))"
  shows "last (split_on CHR ''.'' (strip_chars ''.'' (lower h))) \<noteq> []"
proof -
  let ?host = "strip_chars ''.'' (lower h)"
  from assms have ne: "?host \<noteq> []" by auto
  with strip_chars_ends [of "''.''" "lower h"] have "last ?host \<noteq> CHR ''.''" by simp
  with ne show ?thesis by (simp add: last_split_on_Nil)
qed

lemma base_domain_selected:
  fixes h k
  defines "parts \<equiv> split_on CHR ''.'' (strip_chars ''.'' (lower h))"
  assumes n: "2 < length parts" and k: "k = 2 \<or> k = 3"
    and r: "base_domain h = join ''.'' (drop (length parts - k) parts)"
    and tld: "k = 3 \<longrightarrow> (parts ! (length parts - 2), parts ! (length parts - 1)) \<in> two_part_tlds"
    and nodot: "\<not> prefix ''.'' (base_domain h)"
  shows "base_domain (base_domain h) = base_domain h"
proof -
  let ?sel = "drop (length parts - k) parts"
  from n k have len: "length ?sel = k" by auto
  with k have ne: "?sel \<noteq> []" by auto
  have free: "\<forall>p \<in> set ?sel. CHR ''.'' \<notin> set p"
    using split_on_parts_free [of _ "CHR ''.''" "strip_chars ''.'' (lower h)"]
    by (auto simp: parts_def dest: in_set_dropD)
  from n k have "last ?sel = last parts" by (intro last_drop) auto
  with stripped_host_last_label [of h] n have final: "last ?sel \<noteq> []"
    by (simp add: parts_def)
  have first: "hd ?sel \<noteq> []"
  proof
    assume e: "hd ?sel = []"
    from len k obtain q qs where "?sel = hd ?sel # q # qs"
      by (cases ?sel; cases "tl ?sel") auto
    with e have "?sel = [] # q # qs" by simp
    then have "join ''.'' ?sel = CHR ''.'' # join ''.'' (q # qs)" by simp
    with r nodot show False by simp
  qed
  have low: "lower (join ''.'' ?sel) = join ''.'' ?sel"
    using lower_base_domain [of h] by (simp add: r)
  have shape: "length ?sel \<le> 2 \<or> (length ?sel = 3 \<and> (?sel ! 1, ?sel ! 2) \<in> two_part_tlds)"
  proof (cases "k = 3")
    case True
    from n have a: "length parts - 3 + 1 = length parts - 2"
      and b: "length parts - 3 + 2 = length parts - 1" by arith+
    from n have "drop (length parts - 3) parts ! 1 = parts ! (length parts - 3 + 1)"
      and "drop (length parts - 3) parts ! 2 = parts ! (length parts - 3 + 2)"
      by (simp_all only: nth_drop diff_le_self)
    with True a b
    have "?sel ! 1 = parts ! (length parts - 2)" "?sel ! 2 = parts ! (length parts - 1)"
      by simp_all
    with True tld len show ?thesis by simp
  next
    case False
    with k len show ?thesis by simp
  qed
  from base_domain_of_labels [OF free ne first final low shape] show ?thesis
    by (simp add: r)
qed

lemma base_domain_short:
  assumes "length (split_on CHR ''.'' (strip_chars ''.'' (lower h))) \<le> 2"
    and r: "base_domain h = strip_chars ''.'' (lower h)"
  shows "base_domain (base_domain h) = base_domain h"
proof -
  let ?host = "strip_chars ''.'' (lower h)"
  have low: "lower ?host = ?host" using lower_base_domain [of h] by (simp add: r)
  have strip: "strip_chars ''.'' ?host = ?host"
    using strip_chars_ends [of "''.''" "lower h"] by (intro strip_chars_id) simp
  from assms(1) show ?thesis
    by (simp add: r base_domain_def [of ?host] low strip)
qed

lemma base_domain_no_dot_fixed:
  assumes "\<not> prefix ''.'' (base_domain h)"
  shows "base_domain (base_domain h) = base_domain h"
proof (rule base_domain_form [of h])
  assume "length (split_on CHR ''.'' (strip_chars ''.'' (lower h))) \<le> 2"
    "base_domain h = strip_chars ''.'' (lower h)"
  then show ?thesis by (rule base_domain_short)
next
  assume "2 < length (split_on CHR ''.'' (strip_chars ''.'' (lower h)))"
    "base_domain h = join ''.''
         (drop (length (split_on CHR ''.'' (strip_chars ''.'' (lower h))) - 2)
            (split_on CHR ''.'' (strip_chars ''.'' (lower h))))"
  then show ?thesis using assms by (intro base_domain_selected [where k = 2]) simp_all
next
  assume "2 < length (split_on CHR ''.'' (strip_chars ''.'' (lower h)))"
    "(split_on CHR ''.'' (strip_chars ''.'' (lower h))
          ! (length (split_on CHR ''.'' (strip_chars ''.'' (lower h))) - 2),
        split_on CHR ''.'' (strip_chars ''.'' (lower h))
          ! (length (split_on CHR ''.'' (strip_chars ''.'' (lower h))) - 1)) \<in> two_part_tlds"
    "base_domain h = join ''.''
         (drop (length (split_on CHR ''.'' (strip_chars ''.'' (lower h))) - 3)
            (split_on CHR ''.'' (strip_chars ''.'' (lower h))))"
  then show ?thesis using assms by (intro base_domain_selected [where k = 3]) simp_all
qed

lemma base_domain_dot_moves:
  assumes "prefix ''.'' (base_domain h)"
  shows "base_domain (base_domain h) \<noteq> base_domain h"
proof -
  let ?r = "base_domain h"
  from assms have ne: "?r \<noteq> []" and hd: "hd ?r \<in> set ''.''"
    by (auto simp: prefix_def)
  have "length (base_domain ?r) \<le> length (strip_chars ''.'' (lower ?r))"
    by (rule length_base_domain)
  also have "\<dots> = length (strip_chars ''.'' ?r)" by (simp add: lower_base_domain)
  also have "\<dots> < length ?r" using ne hd by (rule length_strip_chars_less)
  finally show ?thesis by auto
qed

subsection \<open>Hosts without an empty label\<close>

lemma hd_split_on_Nil: "hd (split_on c s) = [] \<longleftrightarrow> s = [] \<or> hd s = c"
  by (cases s) (auto split: list.splits)

lemma empty_label_inside:
  "[] \<in> set (tl (split_on c s)) \<Longrightarrow> last s = c \<or> contains s [c, c]"
proof (induction s)
  case Nil
  then show ?case by simp
next
  case (Cons x xs)
  obtain p ps where sp: "split_on c xs = p # ps"
    using split_on_not_Nil [of c xs] by (cases "split_on c xs") auto
  show ?case
  proof (cases "xs = []")
    case True
    with Cons.prems show ?thesis by (auto split: if_splits)
  next
    case xs: False
    show ?thesis
    proof (cases "x = c")
      case True
      with Cons.prems sp have "p = [] \<or> [] \<in> set ps" by auto
      then show ?thesis
      proof
        assume "p = []"
        with sp have "hd (split_on c xs) = []" by simp
        with xs have "hd xs = c" by (simp add: hd_split_on_Nil)
        with xs True have "prefix [c, c] (x # xs)" by (cases xs) auto
        then have "contains (x # xs) [c, c]" unfolding contains.simps by (rule disjI1)
        then show ?thesis by (rule disjI2)
      next
        assume "[] \<in> set ps"
        with sp Cons.IH have "last xs = c \<or> contains xs [c, c]" by simp
        with xs show ?thesis by auto
      qed
    next
      case False
      with Cons.prems sp have "[] \<in> set ps" by auto
      with sp Cons.IH have "last xs = c \<or> contains xs [c, c]" by simp
      with xs show ?thesis by auto
    qed
  qed
qed

lemma no_empty_label:
  assumes "s \<noteq> []" "hd s \<noteq> c" "last s \<noteq> c" "\<not> contains s [c, c]"
  shows "[] \<notin> set (split_on c s)"
proof
  assume "[] \<in> set (split_on c s)"
  then have "hd (split_on c s) = [] \<or> [] \<in> set (tl (split_on c s))"
    using split_on_not_Nil [of c s] by (cases "split_on c s") auto
  with assms show False
    by (auto simp: hd_split_on_Nil dest: empty_label_inside)
qed

lemma strip_chars_infix: "\<exists>pre post. s = pre @ strip_chars cs s @ post"
proof -
  let ?P = "\<lambda>c. c \<in> set cs"
  let ?d = "dropWhile ?P s"
  have a: "takeWhile ?P (rev ?d) @ dropWhile ?P (rev ?d) = rev ?d"
    by (rule takeWhile_dropWhile_id)
  have "?d = rev (rev ?d)" by (simp only: rev_rev_ident)
  also have "\<dots> = rev (takeWhile ?P (rev ?d) @ dropWhile ?P (rev ?d))" by (simp only: a)
  also have "\<dots> = rev (dropWhile ?P (rev ?d)) @ rev (takeWhile ?P (rev ?d))"
    by (rule rev_append)
  finally have "?d = strip_chars cs s @ rev (takeWhile ?P (rev ?d))"
    by (simp only: strip_chars_def)
  moreover have "s = takeWhile ?P s @ ?d" by simp
  ultimately have "s = takeWhile ?P s @ strip_chars cs s @ rev (takeWhile ?P (rev ?d))"
    by simp
  then show ?thesis by blast
qed

lemma contains_strip_chars: "contains (strip_chars cs s) sub \<Longrightarrow> contains s sub"
proof -
  assume "contains (strip_chars cs s) sub"
  then obtain a b where 1: "strip_chars cs s = a @ sub @ b" by (auto simp: contains_iff)
  obtain pre post where "s = pre @ strip_chars cs s @ post"
    using strip_chars_infix by blast
  with 1 have "s = (pre @ a) @ sub @ (b @ post)" by simp
  then show ?thesis unfolding contains_iff by blast
qed

lemma contains_lower_dots: "contains (lower s) ''..'' \<Longrightarrow> contains s ''..''"
proof -
  assume "contains (lower s) ''..''"
  then obtain a b where "map lower_char s = a @ ''..'' @ b"
    by (auto simp: contains_iff lower_def)
  then obtain a' m' where s: "s = a' @ m'" and "map lower_char m' = ''..'' @ b"
    by (auto simp: map_eq_append_conv)
  then obtain z za zsa where m: "m' = z # za # zsa"
    and "lower_char z = CHR ''.''" "lower_char za = CHR ''.''"
    by (auto simp: map_eq_Cons_conv)
  then have "z = CHR ''.''" "za = CHR ''.''" by (simp_all add: lower_char_dot)
  with s m have "s = a' @ ''..'' @ zsa" by simp
  then show ?thesis unfolding contains_iff by blast
qed

lemma base_domain_no_leading_dot:
  assumes "\<not> contains h ''..''"
  shows "\<not> prefix ''.'' (base_domain h)"
proof -
  let ?host = "strip_chars ''.'' (lower h)"
  let ?parts = "split_on CHR ''.'' ?host"
  from assms have nodd: "\<not> contains ?host ''..''"
    using contains_strip_chars contains_lower_dots by blast
  have ends: "?host = [] \<or> (hd ?host \<noteq> CHR ''.'' \<and> last ?host \<noteq> CHR ''.'')"
    using strip_chars_ends [of "''.''" "lower h"] by simp
  have sel: "\<not> prefix ''.'' (join ''.'' (drop (length ?parts - k) ?parts))"
    if n: "2 < length ?parts" and k: "k = 2 \<or> k = 3" for k
  proof -
    let ?sel = "drop (length ?parts - k) ?parts"
    from n have ne: "?host \<noteq> []" by auto
    with ends nodd have all: "[] \<notin> set ?parts" by (intro no_empty_label) simp_all
    from n k have "length ?sel = k" by auto
    with k obtain p ps where s: "?sel = p # ps" by (cases ?sel) auto
    then have "p \<in> set ?sel" by simp
    then have pin: "p \<in> set ?parts" by (rule in_set_dropD)
    with all have p: "p \<noteq> []" by auto
    from pin have "CHR ''.'' \<notin> set p" by (rule split_on_parts_free)
    with p have "hd p \<noteq> CHR ''.''" by (cases p) auto
    with p have "hd (join ''.'' ?sel) \<noteq> CHR ''.''" by (simp add: s hd_join)
    then show ?thesis by (auto simp: prefix_def)
  qed
  show ?thesis
  proof (rule base_domain_form [of h])
    assume "base_domain h = ?host"
    with ends show ?thesis by (auto simp: prefix_def)
  next
    assume "2 < length ?parts" "base_domain h = join ''.'' (drop (length ?parts - 2) ?parts)"
    with sel [of 2] show ?thesis by simp
  next
    assume "2 < length ?parts" "base_domain h = join ''.'' (drop (length ?parts - 3) ?parts)"
    with sel [of 3] show ?thesis by simp
  qed
qed

subsection \<open>What each step reads of the collaborators\<close>

lemma extract_host_cong_env:
  "urlparse e = urlparse e' \<Longrightarrow> extract_host e x = extract_host e' x"
  by (simp add: extract_host_def Let_def)

lemma is_trusted_cong_env:
  "urlparse e = urlparse e' \<Longrightarrow> is_trusted e x = is_trusted e' x"
  by (simp add: is_trusted_def extract_host_cong_env [of e e'])

lemma fetch_final_unfold:
  "fetch_final e x log =
     (if extract_host e x = [] then (Failed ''Empty input'', log)
      else try_candidates (http_get e) (candidate_urls e x) log None)"
  by (simp add: fetch_final_def candidate_urls_def Let_def)


subsection \<open>The loop over the candidates\<close>

lemma try_candidates_all_fail:
  assumes "\<forall>k < length cands. \<not> accepted (outcome_at get log cands k)"
  shows "try_candidates get cands log last_err =
     (Failed (''Cannot access website (''
        @ (if cands = [] then fmt_last_err last_err
           else error_text (outcome_at get log cands (length cands - 1)))
        @ '')''), log @ cands)"
  using assms
proof (induction cands arbitrary: log last_err)
  case Nil
  then show ?case by simp
next
  case (Cons u us)
  from Cons.prems have first: "\<not> accepted (get log u)"
    by (auto simp: outcome_at_def dest: spec [of _ 0])
  have rest: "\<forall>k < length us. \<not> accepted (outcome_at get (log @ [u]) us k)"
  proof (intro allI impI)
    fix k assume "k < length us"
    with Cons.prems have "\<not> accepted (outcome_at get log (u # us) (Suc k))" by simp
    then show "\<not> accepted (outcome_at get (log @ [u]) us k)"
      by (simp add: outcome_at_def)
  qed
  have last_eq: "us \<noteq> [] \<Longrightarrow>
      outcome_at get (log @ [u]) us (length us - 1) = outcome_at get log (u # us) (length us)"
    by (cases us) (simp_all add: outcome_at_def)
  show ?case
  proof (cases "get log u")
    case (Raises m)
    then show ?thesis
      using Cons.IH [OF rest, of "Some m"] last_eq
      by (cases "us = []") (simp_all add: fmt_last_err_def error_text_def outcome_at_def)
  next
    case (Response status_code body url)
    with first have "\<not> (status_code < 400 \<and> body \<noteq> [])" by (simp add: accepted_def)
    with Response show ?thesis
      using Cons.IH [OF rest, of "Some (''HTTP '' @ str_int status_code)"] last_eq
      by (cases "us = []") (simp_all add: fmt_last_err_def error_text_def outcome_at_def)
  qed
qed

lemma try_candidates_Failed_iff:
  "(\<exists>m. fst (try_candidates get cands log last_err) = Failed m)
     \<longleftrightarrow> (\<forall>k < length cands. \<not> accepted (outcome_at get log cands k))"
proof
  assume "\<forall>k < length cands. \<not> accepted (outcome_at get log cands k)"
  then show "\<exists>m. fst (try_candidates get cands log last_err) = Failed m"
    by (simp add: try_candidates_all_fail)
next
  assume "\<exists>m. fst (try_candidates get cands log last_err) = Failed m"
  then show "\<forall>k < length cands. \<not> accepted (outcome_at get log cands k)"
  proof (induction cands arbitrary: log last_err)
    case Nil
    then show ?case by simp
  next
    case (Cons u us)
    show ?case
    proof (cases "accepted (get log u)")
      case True
      with Cons.prems show ?thesis
        by (auto simp: accepted_def split: http_outcome.splits)
    next
      case False
      then obtain le where
        step: "try_candidates get (u # us) log last_err = try_candidates get us (log @ [u]) le"
        by (cases "get log u") (auto simp: accepted_def)
      with Cons.prems Cons.IH [of "log @ [u]" le]
      have rest: "\<forall>k < length us. \<not> accepted (outcome_at get (log @ [u]) us k)" by simp
      show ?thesis
      proof (intro allI impI)
        fix k assume k: "k < length (u # us)"
        show "\<not> accepted (outcome_at get log (u # us) k)"
        proof (cases k)
          case 0
          with False show ?thesis by (simp add: outcome_at_def)
        next
          case (Suc j)
          with k rest have "\<not> accepted (outcome_at get (log @ [u]) us j)" by simp
          with Suc show ?thesis by (simp add: outcome_at_def)
        qed
      qed
    qed
  qed
qed

lemma base_domain_Nil: "base_domain [] = []"
  by (simp add: base_domain_def lower_def strip_chars_def)

lemma Nil_not_trusted: "[] \<notin> TRUSTED"
  by (simp add: TRUSTED_def)

lemma extract_host_blank: "\<forall>c \<in> set s. isspace c \<Longrightarrow> extract_host e s = []"
  by (simp add: extract_host_def strip_eq_Nil_iff)

lemma not_trusted_Nil: "\<not> is_trusted e []"
  by (simp add: is_trusted_def extract_host_blank base_domain_Nil Nil_not_trusted)

lemma fetch_final_Failed_iff:
  "(\<exists>m. fst (fetch_final e user_input log) = Failed m)
     \<longleftrightarrow> extract_host e user_input = []
          \<or> (\<forall>k < length (candidate_urls e user_input).
                \<not> accepted (outcome_at (http_get e) log (candidate_urls e user_input) k))"
proof (cases "extract_host e user_input = []")
  case True
  then show ?thesis by (simp add: fetch_final_unfold)
next
  case False
  then show ?thesis
    by (simp add: fetch_final_unfold try_candidates_Failed_iff)
qed

text \<open>
  Both error messages of \<open>fetch_final\<close> are non-empty strings, so the test \<open>if err:\<close> of
  \<open>analyze_target\<close> is true for exactly the results of the shape \<open>Failed\<close>.
\<close>

lemma fetch_final_message_nonempty:
  "fst (fetch_final e user_input log) = Failed m \<Longrightarrow> m \<noteq> []"
proof (cases "extract_host e user_input = []")
  case True
  assume "fst (fetch_final e user_input log) = Failed m"
  with True show ?thesis by (auto simp: fetch_final_unfold)
next
  case False
  assume f: "fst (fetch_final e user_input log) = Failed m"
  with False have "\<exists>m. fst (try_candidates (http_get e) (candidate_urls e user_input) log None)
                         = Failed m"
    by (auto simp: fetch_final_unfold)
  then have "\<forall>k < length (candidate_urls e user_input).
                \<not> accepted (outcome_at (http_get e) log (candidate_urls e user_input) k)"
    by (simp only: try_candidates_Failed_iff)
  from try_candidates_all_fail [OF this, of None] f False
  show ?thesis by (auto simp: fetch_final_unfold)
qed

subsection \<open>The signals of a scored page\<close>

lemma scored_signals:
  assumes "\<not> is_trusted e (extract_host e user_input)"
    and "fetch_final e user_input log = (Fetched final_url html, log')"
    and "\<not> is_trusted e (extract_host e final_url)"
  shows "signal_on (fst (analyze_target e user_input log)) ''thin_content''
           = (length (words_ws (lower (collapse_ws (visible_text e html)))) < 200)"
    and "signal_on (fst (analyze_target e user_input log)) ''lorem_ipsum''
           = (contains (lower (collapse_ws (visible_text e html))) ''lorem ipsum''
              \<or> contains (lower (collapse_ws (visible_text e html))) ''dolor sit amet'')"
    and "signal_on (fst (analyze_target e user_input log)) ''no_https''
           = (\<not> prefix ''https://'' (lower final_url))"
    and "result_score (fst (analyze_target e user_input log))
           = max 0 (100 - total_risk e final_url html)"
  by (simp_all add: analyze_scored [OF assms] signal_on_def result_score_def signals_quick_risk)

lemma total_risk_by_signals:
  assumes "\<not> is_trusted e (extract_host e user_input)"
    and "fetch_final e user_input log = (Fetched final_url html, log')"
    and "\<not> is_trusted e (extract_host e final_url)"
  shows "total_risk e final_url html =
      (if signal_on (fst (analyze_target e user_input log)) ''thin_content'' then 20 else 0)
    + (if signal_on (fst (analyze_target e user_input log)) ''lorem_ipsum'' then 30 else 0)
    + (if signal_on (fst (analyze_target e user_input log)) ''no_https'' then 25 else 0)"
  by (simp add: scored_signals [OF assms] total_risk_def risk_quick_risk)

subsection \<open>Evaluations at concrete inputs\<close>

lemma host_youtube: "extract_host env_offline ''youtube.com'' = ''youtube.com''"
  by code_simp

lemma trusted_youtube: "is_trusted env_offline ''youtube.com''"
  by code_simp

lemma host_example: "extract_host env_offline ''example.com'' = ''example.com''"
  by code_simp

lemma untrusted_example: "\<not> is_trusted env_offline ''example.com''"
  by code_simp

lemma host_example_urls:
  "extract_host env_offline ''https://example.com/'' = ''example.com''"
  "extract_host env_offline ''http://example.com/'' = ''example.com''"
  by code_simp+

lemma lower_example_urls:
  "lower ''https://example.com/'' = ''https://example.com/''"
  "lower ''http://example.com/'' = ''http://example.com/''"
  by (simp_all add: lower_def lower_char_def)

lemma lorem_text:
  "lower (collapse_ws (strip ''Lorem ipsum dolor sit amet'')) = ''lorem ipsum dolor sit amet''"
  by (simp add: strip_def isspace_def lower_def lower_char_def)

lemma lorem_words:
  "words_ws ''lorem ipsum dolor sit amet'' = [''lorem'', ''ipsum'', ''dolor'', ''sit'', ''amet'']"
  by (simp add: words_ws.simps isspace_def)

lemma candidates_example:
  "candidate_urls env_offline ''example.com'' = [''https://example.com/'', ''http://example.com/'']"
  by (simp add: candidate_urls_def host_example)


subsection \<open>Lowercasing and the delimiters of a URL\<close>

lemma lower_char_back:
  assumes l: "lower_char c = Char a0 a1 a2 a3 a4 a5 a6 a7"
    and n0: "\<not> ((65 \<le> (of_char (Char a0 a1 a2 a3 a4 False a6 a7) :: nat)
                  \<and> (of_char (Char a0 a1 a2 a3 a4 False a6 a7) :: nat) \<le> 90)
               \<or> (192 \<le> (of_char (Char a0 a1 a2 a3 a4 False a6 a7) :: nat)
                  \<and> (of_char (Char a0 a1 a2 a3 a4 False a6 a7) :: nat) \<le> 222
                  \<and> (of_char (Char a0 a1 a2 a3 a4 False a6 a7) :: nat) \<noteq> 215))"
    and n1: "\<not> ((65 \<le> (of_char (Char a0 a1 a2 a3 a4 True a6 a7) :: nat)
                  \<and> (of_char (Char a0 a1 a2 a3 a4 True a6 a7) :: nat) \<le> 90)
               \<or> (192 \<le> (of_char (Char a0 a1 a2 a3 a4 True a6 a7) :: nat)
                  \<and> (of_char (Char a0 a1 a2 a3 a4 True a6 a7) :: nat) \<le> 222
                  \<and> (of_char (Char a0 a1 a2 a3 a4 True a6 a7) :: nat) \<noteq> 215))"
  shows "c = Char a0 a1 a2 a3 a4 a5 a6 a7"
proof (cases c rule: lower_char_cases)
  case 1
  with l show ?thesis by (simp only:)
next
  case (2 b0 b1 b2 b3 b4 b5 b6 b7)
  from l 2(2) have "Char b0 b1 b2 b3 b4 True b6 b7 = Char a0 a1 a2 a3 a4 a5 a6 a7"
    by (simp only:)
  then have bits: "b0 = a0 \<and> b1 = a1 \<and> b2 = a2 \<and> b3 = a3 \<and> b4 = a4 \<and> True = a5
      \<and> b6 = a6 \<and> b7 = a7"
    by (simp only: char.inject)
  with 2(1) have c: "c = Char a0 a1 a2 a3 a4 b5 a6 a7" by (simp only:)
  show ?thesis
  proof (cases b5)
    case True
    with c have "c = Char a0 a1 a2 a3 a4 True a6 a7" by (simp only:)
    with 2(3) n1 show ?thesis by (simp only:)
  next
    case False
    with c have "c = Char a0 a1 a2 a3 a4 False a6 a7" by (simp only:)
    with 2(3) n0 show ?thesis by (simp only:)
  qed
qed

lemma isspace_chars:
  "isspace x \<longleftrightarrow>
     x \<in> set [CHR 0x09, CHR 0x0A, CHR 0x0B, CHR 0x0C, CHR 0x0D, CHR 0x1C, CHR 0x1D, CHR 0x1E,
               CHR 0x1F, CHR 0x20, CHR 0x85, CHR 0xA0]"
proof -
  have "isspace x \<longleftrightarrow>
     (of_char x :: nat) \<in> of_char ` set [CHR 0x09, CHR 0x0A, CHR 0x0B, CHR 0x0C, CHR 0x0D, CHR 0x1C,
               CHR 0x1D, CHR 0x1E, CHR 0x1F, CHR 0x20, CHR 0x85, CHR 0xA0]"
    by (simp add: isspace_def)
  then show ?thesis by (simp only: inj_image_mem_iff [OF inj_of_char])
qed

lemma unsafe_url_byte_chars:
  "unsafe_url_byte x \<longleftrightarrow> x \<in> set [CHR 0x09, CHR 0x0D, CHR 0x0A]"
proof -
  have "unsafe_url_byte x \<longleftrightarrow>
     (of_char x :: nat) \<in> of_char ` set [CHR 0x09, CHR 0x0D, CHR 0x0A]"
    by (simp add: unsafe_url_byte_def)
  then show ?thesis by (simp only: inj_image_mem_iff [OF inj_of_char])
qed

lemma lower_char_back_chars:
  "lower_char c = CHR ''/'' \<Longrightarrow> c = CHR ''/''"
  "lower_char c = CHR ''?'' \<Longrightarrow> c = CHR ''?''"
  "lower_char c = CHR ''#'' \<Longrightarrow> c = CHR ''#''"
  "lower_char c = CHR '':'' \<Longrightarrow> c = CHR '':''"
  "lower_char c = CHR ''@'' \<Longrightarrow> c = CHR ''@''"
  "lower_char c = CHR ''['' \<Longrightarrow> c = CHR ''[''"
  "lower_char c = CHR '']'' \<Longrightarrow> c = CHR '']''"
  "lower_char c = CHR 0x09 \<Longrightarrow> c = CHR 0x09"
  "lower_char c = CHR 0x0A \<Longrightarrow> c = CHR 0x0A"
  "lower_char c = CHR 0x0B \<Longrightarrow> c = CHR 0x0B"
  "lower_char c = CHR 0x0C \<Longrightarrow> c = CHR 0x0C"
  "lower_char c = CHR 0x0D \<Longrightarrow> c = CHR 0x0D"
  "lower_char c = CHR 0x1C \<Longrightarrow> c = CHR 0x1C"
  "lower_char c = CHR 0x1D \<Longrightarrow> c = CHR 0x1D"
  "lower_char c = CHR 0x1E \<Longrightarrow> c = CHR 0x1E"
  "lower_char c = CHR 0x1F \<Longrightarrow> c = CHR 0x1F"
  "lower_char c = CHR 0x20 \<Longrightarrow> c = CHR 0x20"
  "lower_char c = CHR 0x85 \<Longrightarrow> c = CHR 0x85"
  "lower_char c = CHR 0xA0 \<Longrightarrow> c = CHR 0xA0"
  by (erule lower_char_back, simp, simp)+

lemma lower_char_special:
  assumes "d \<in> set (''/?#:@[]'' @ [CHR 0x09, CHR 0x0A, CHR 0x0B, CHR 0x0C, CHR 0x0D, CHR 0x1C,
               CHR 0x1D, CHR 0x1E, CHR 0x1F, CHR 0x20, CHR 0x85, CHR 0xA0])"
  shows "lower_char c = d \<longleftrightarrow> c = d"
proof
  from assms have fx: "lower_char d = d" by (auto simp: lower_char_def)
  assume "c = d"
  with fx show "lower_char c = d" by simp
next
  assume "lower_char c = d"
  with assms show "c = d" by (auto dest: lower_char_back_chars)
qed

lemma isspace_lower: "isspace (lower_char c) \<longleftrightarrow> isspace c"
  unfolding isspace_chars using lower_char_special [of _ c] by auto

lemma unsafe_url_byte_lower: "unsafe_url_byte (lower_char c) \<longleftrightarrow> unsafe_url_byte c"
  unfolding unsafe_url_byte_chars using lower_char_special [of _ c] by auto

lemma lower_char_delim: "d \<in> set ''/?#:@[]'' \<Longrightarrow> lower_char c = d \<longleftrightarrow> c = d"
  by (rule lower_char_special) auto

subsection \<open>Hosts that normalisation leaves unchanged\<close>

lemma strip_as_strip_chars:
  "strip s = strip_chars [CHR 0x09, CHR 0x0A, CHR 0x0B, CHR 0x0C, CHR 0x0D, CHR 0x1C, CHR 0x1D,
                          CHR 0x1E, CHR 0x1F, CHR 0x20, CHR 0x85, CHR 0xA0] s"
proof -
  have "isspace = (\<lambda>c. c \<in> set [CHR 0x09, CHR 0x0A, CHR 0x0B, CHR 0x0C, CHR 0x0D, CHR 0x1C,
                          CHR 0x1D, CHR 0x1E, CHR 0x1F, CHR 0x20, CHR 0x85, CHR 0xA0])"
    by (rule ext) (rule isspace_chars)
  then show ?thesis by (simp only: strip_def strip_chars_def)
qed

lemma strip_id: "s = [] \<or> (\<not> isspace (hd s) \<and> \<not> isspace (last s)) \<Longrightarrow> strip s = s"
  unfolding strip_as_strip_chars isspace_chars by (rule strip_chars_id)

lemma strip_ends: "strip s = [] \<or> (\<not> isspace (hd (strip s)) \<and> \<not> isspace (last (strip s)))"
  unfolding strip_as_strip_chars isspace_chars by (rule strip_chars_ends)

lemma set_strip: "set (strip s) \<subseteq> set s"
  unfolding strip_as_strip_chars by (rule set_strip_chars)

lemma strip_chars_none: "set s \<inter> set cs = {} \<Longrightarrow> strip_chars cs s = s"
proof (rule strip_chars_id)
  assume d: "set s \<inter> set cs = {}"
  show "s = [] \<or> (hd s \<notin> set cs \<and> last s \<notin> set cs)"
  proof (cases "s = []")
    case True
    then show ?thesis by simp
  next
    case False
    then have "hd s \<in> set s" "last s \<in> set s" by simp_all
    with d show ?thesis by blast
  qed
qed

lemma set_split_part: "p \<in> set (split_on c s) \<Longrightarrow> set p \<subseteq> set s"
  using set_part_join [of p "split_on c s" "[c]"] by (simp add: join_split_on)

lemma contains_sub_set: "contains s sub \<Longrightarrow> set sub \<subseteq> set s"
  by (auto simp: contains_iff)

lemma parse_https_host:
  assumes clean: "\<forall>c \<in> set h. c \<notin> set ''/?#:@'' \<and> \<not> unsafe_url_byte c"
  shows "urlparse_cpython chk (''https://'' @ h) =
     (if (CHR ''['' \<in> set h \<and> CHR '']'' \<notin> set h) \<or> (CHR '']'' \<in> set h \<and> CHR ''['' \<notin> set h)
      then Inl (ValueError ''Invalid IPv6 URL'')
      else (case (if CHR ''['' \<in> set h \<and> CHR '']'' \<in> set h then chk (bracketed_host h) else None) of
              Some ex \<Rightarrow> Inl ex
            | None \<Rightarrow> Inr \<lparr>netloc = h, path = []\<rparr>))"
proof -
  have d: "dropWhile c0_control_or_space (''https://'' @ h) = ''https://'' @ h"
    by (simp add: c0_control_or_space_def)
  from clean have fh: "filter (\<lambda>c. \<not> unsafe_url_byte c) h = h"
    by (simp add: filter_id_conv)
  have "filter (\<lambda>c. \<not> unsafe_url_byte c) ''https://'' = ''https://''"
    by (simp add: unsafe_url_byte_def)
  with fh have f: "filter (\<lambda>c. \<not> unsafe_url_byte c) (''https://'' @ h) = ''https://'' @ h"
    by (simp only: filter_append)
  have pre: "before_char CHR '':'' (''https://'' @ h) = ''https''"
    by (simp add: before_char_def)
  have sch: "\<forall>c \<in> set ''https''. c \<in> set scheme_chars"
    by (simp add: scheme_chars_def)
  have low: "lower ''https'' = ''https''"
    by (simp add: lower_def lower_char_def)
  have up: "''https'' \<in> set uses_params"
    by (simp add: uses_params_def)
  from clean have tw: "takeWhile (\<lambda>c. c \<noteq> CHR ''/'' \<and> c \<noteq> CHR ''?'' \<and> c \<noteq> CHR ''#'') h = h"
    by (auto simp: takeWhile_eq_all_conv)
  from clean have dw: "dropWhile (\<lambda>c. c \<noteq> CHR ''/'' \<and> c \<noteq> CHR ''?'' \<and> c \<noteq> CHR ''#'') h = []"
    by auto
  show ?thesis
    unfolding urlparse_cpython_def d f pre Let_def
    by (simp add: sch low up tw dw ascii_alpha_def before_char_def split: option.split)
qed

lemma extract_host_normal:
  assumes p: "urlparse e = urlparse_cpython chk" and n: "normal_host h"
  shows "extract_host e h = h"
proof (cases "h = []")
  case True
  then show ?thesis by (simp add: extract_host_def strip_def)
next
  case False
  from n have low: "lower h = h" and st: "strip h = h"
    and clean: "\<forall>c \<in> set h. c \<notin> set ''/?#:@'' \<and> \<not> unsafe_url_byte c"
    by (simp_all add: normal_host_def)
  from clean have "CHR '':'' \<notin> set h" by auto
  then have nc: "\<not> contains h ''://''" by (auto dest: contains_sub_set)
  from clean have slash: "strip_chars ''/'' h = h" by (intro strip_chars_none) auto
  from clean have at: "split_on CHR ''@'' h = [h]" by (intro split_on_free) auto
  from clean have colon: "split_on CHR '':'' h = [h]" by (intro split_on_free) auto
  have hp: "host_from_parts \<lparr>netloc = h, path = []\<rparr> = h"
    using False by (simp add: host_from_parts_def st at colon slash low)
  have eh: "extract_host e h =
      (case urlparse_cpython chk (''https://'' @ h) of
         Inr p \<Rightarrow> host_from_parts p
       | Inl ex \<Rightarrow> strip_chars ''/'' (strip (lower h)))"
    using False by (simp add: extract_host_def st nc p del: append.simps)
  show ?thesis
    unfolding eh parse_https_host [OF clean]
    by (simp add: low st slash hp split: option.split)
qed

lemma parse_result_netloc:
  "(if B then Inl v else (case opt of Some ex \<Rightarrow> Inl ex
      | None \<Rightarrow> Inr \<lparr>netloc = nl, path = pa\<rparr>)) = Inr p \<Longrightarrow> netloc p = nl"
  by (auto split: if_splits option.splits)

lemma netloc_form:
  assumes "urlparse_cpython chk u = Inr p"
  shows "\<exists>rest. netloc p = takeWhile (\<lambda>c. \<not> (c = CHR ''/'' \<or> c = CHR ''?'' \<or> c = CHR ''#'')) (drop 2 rest)
     \<and> set rest \<subseteq> set (filter (\<lambda>c. \<not> unsafe_url_byte c) (dropWhile c0_control_or_space u))"
proof -
  define url where "url = filter (\<lambda>c. \<not> unsafe_url_byte c) (dropWhile c0_control_or_space u)"
  define pre where "pre = before_char CHR '':'' url"
  define hs where "hs = (CHR '':'' \<in> set url \<and> pre \<noteq> [] \<and> ascii_alpha (hd url)
                        \<and> (\<forall>c \<in> set pre. c \<in> set scheme_chars))"
  define url2 where "url2 = (if hs then drop (length pre + 1) url else url)"
  define P where "P = (\<lambda>c. \<not> (c = CHR ''/'' \<or> c = CHR ''?'' \<or> c = CHR ''#''))"
  define nl where "nl = (if take 2 url2 = ''//'' then takeWhile P (drop 2 url2) else [])"
  have sub: "set url2 \<subseteq> set url" by (auto simp: url2_def dest: in_set_dropD)
  from assms have nl: "netloc p = nl"
    unfolding urlparse_cpython_def Let_def nl_def url2_def hs_def pre_def url_def P_def
    by (rule parse_result_netloc)
  show ?thesis
  proof (cases "take 2 url2 = ''//''")
    case True
    with nl have "netloc p = takeWhile P (drop 2 url2)" by (simp add: nl_def)
    with sub show ?thesis unfolding P_def url_def by (intro exI [of _ url2]) simp
  next
    case False
    with nl have "netloc p = takeWhile P (drop 2 [])" by (simp add: nl_def)
    then show ?thesis unfolding P_def by (intro exI [of _ "[]"]) simp
  qed
qed

lemma netloc_clean:
  assumes "urlparse_cpython chk u = Inr p"
  shows "\<forall>c \<in> set (netloc p). c \<notin> set ''/?#'' \<and> \<not> unsafe_url_byte c"
proof
  fix c assume c: "c \<in> set (netloc p)"
  let ?url = "filter (\<lambda>c. \<not> unsafe_url_byte c) (dropWhile c0_control_or_space u)"
  let ?P = "\<lambda>c. \<not> (c = CHR ''/'' \<or> c = CHR ''?'' \<or> c = CHR ''#'')"
  from netloc_form [OF assms] obtain rest where nl: "netloc p = takeWhile ?P (drop 2 rest)"
    and rest: "set rest \<subseteq> set ?url" by blast
  from c nl have "c \<in> set (takeWhile ?P (drop 2 rest))" by simp
  then have Pc: "?P c" and "c \<in> set (drop 2 rest)"
    by (blast dest: set_takeWhileD)+
  then have "c \<in> set rest" by (blast dest: in_set_dropD)
  with rest have "c \<in> set ?url" by blast
  then have "\<not> unsafe_url_byte c" by simp
  with Pc show "c \<notin> set ''/?#'' \<and> \<not> unsafe_url_byte c" by simp
qed

lemma host_from_parts_normal:
  assumes clean: "\<forall>c \<in> set (netloc p). c \<notin> set ''/?#'' \<and> \<not> unsafe_url_byte c"
    and ne: "netloc p \<noteq> []"
  shows "normal_host (host_from_parts p)"
proof -
  let ?A = "strip (netloc p)"
  let ?B = "last (split_on CHR ''@'' ?A)"
  let ?C = "hd (split_on CHR '':'' ?B)"
  let ?D = "strip ?C"
  have B_in: "?B \<in> set (split_on CHR ''@'' ?A)" by (simp add: split_on_not_Nil)
  have C_in: "?C \<in> set (split_on CHR '':'' ?B)" by (simp add: split_on_not_Nil)
  have "set ?D \<subseteq> set ?C" by (rule set_strip)
  also have "\<dots> \<subseteq> set ?B" using C_in by (rule set_split_part)
  also have "\<dots> \<subseteq> set ?A" using B_in by (rule set_split_part)
  also have "\<dots> \<subseteq> set (netloc p)" by (rule set_strip)
  finally have sub: "set ?D \<subseteq> set (netloc p)" .
  have "CHR ''@'' \<notin> set ?B" using B_in by (rule split_on_parts_free)
  moreover have "set ?D \<subseteq> set ?B"
    using set_strip [of ?C] set_split_part [OF C_in] by blast
  ultimately have no_at: "CHR ''@'' \<notin> set ?D" by blast
  have "CHR '':'' \<notin> set ?C" using C_in by (rule split_on_parts_free)
  with set_strip [of ?C] have no_colon: "CHR '':'' \<notin> set ?D" by blast
  from clean sub no_at no_colon
  have D: "\<forall>c \<in> set ?D. c \<notin> set ''/?#:@'' \<and> \<not> unsafe_url_byte c" by auto
  then have slash: "strip_chars ''/'' ?D = ?D" by (intro strip_chars_none) auto
  from ne have h: "host_from_parts p = lower ?D"
    by (simp add: host_from_parts_def slash)
  have low: "lower (lower ?D) = lower ?D"
    by (simp add: lower_def lower_char_idem)
  have chars: "\<forall>c \<in> set (lower ?D). c \<notin> set ''/?#:@'' \<and> \<not> unsafe_url_byte c"
  proof
    fix c assume "c \<in> set (lower ?D)"
    then obtain c' where c': "c' \<in> set ?D" and c: "c = lower_char c'"
      by (auto simp: lower_def)
    from D c' have d: "c' \<notin> set ''/?#:@''" and u: "\<not> unsafe_url_byte c'" by auto
    have "c \<notin> set ''/?#:@''"
    proof
      assume "c \<in> set ''/?#:@''"
      then have "c \<in> set ''/?#:@[]''" by auto
      from lower_char_delim [OF this, of c'] c have "c' = c" by simp
      with d \<open>c \<in> set ''/?#:@''\<close> show False by simp
    qed
    moreover from u have "\<not> unsafe_url_byte c" by (simp add: c unsafe_url_byte_lower)
    ultimately show "c \<notin> set ''/?#:@'' \<and> \<not> unsafe_url_byte c" by simp
  qed
  have st: "strip (lower ?D) = lower ?D"
  proof (rule strip_id)
    show "lower ?D = [] \<or> (\<not> isspace (hd (lower ?D)) \<and> \<not> isspace (last (lower ?D)))"
    proof (cases "?D = []")
      case True
      then show ?thesis by (simp add: lower_def)
    next
      case False
      with strip_ends [of ?C] have "\<not> isspace (hd ?D)" "\<not> isspace (last ?D)" by simp_all
      with False show ?thesis
        by (simp add: lower_def hd_map last_map isspace_lower)
    qed
  qed
  show ?thesis unfolding h normal_host_def using low st chars by simp
qed

lemma authority_host_stable:
  assumes p: "urlparse e = urlparse_cpython chk" and a: "has_authority e u"
  shows "extract_host e (extract_host e u) = extract_host e u"
proof -
  from a obtain q where s: "strip u \<noteq> []" and q: "urlparse e (parse_input u) = Inr q"
    and ne: "netloc q \<noteq> []"
    by (auto simp: has_authority_def split: sum.splits)
  from s q have h: "extract_host e u = host_from_parts q"
    by (simp add: extract_host_def parse_input_def Let_def)
  from q p have "urlparse_cpython chk (parse_input u) = Inr q" by simp
  then have "\<forall>c \<in> set (netloc q). c \<notin> set ''/?#'' \<and> \<not> unsafe_url_byte c"
    by (rule netloc_clean)
  then have "normal_host (host_from_parts q)" using ne by (rule host_from_parts_normal)
  with p show ?thesis unfolding h by (rule extract_host_normal)
qed



lemma is_trusted_stable:
  assumes "extract_host e h = h"
  shows "is_trusted e h \<longleftrightarrow> h \<in> TRUSTED \<or> base_domain h \<in> TRUSTED"
  by (simp add: is_trusted_def assms)

lemma is_trusted_authority:
  assumes "urlparse e = urlparse_cpython chk" and "has_authority e u"
  shows "is_trusted e (extract_host e u)
     \<longleftrightarrow> extract_host e u \<in> TRUSTED \<or> base_domain (extract_host e u) \<in> TRUSTED"
  using authority_host_stable [OF assms] by (rule is_trusted_stable)

section \<open>Claims\<close>

text \<open>
  C1.  The label is LOW_QUALITY for a score below 50, SUSPICIOUS from 50 up to 59, GOOD_SAFE
  above 70, and SUSPICIOUS for every score from 60 to 70, the score 70 included.  At the
  boundaries: 49 gives LOW_QUALITY; 50, 59, 60 and 70 give SUSPICIOUS; 71 and 100 give
  GOOD_SAFE.
\<close>

theorem label_from_score_mapping:
  "(score < 50 \<longrightarrow> label_from_score score = ''LOW_QUALITY'')
   \<and> (50 \<le> score \<and> score < 60 \<longrightarrow> label_from_score score = ''SUSPICIOUS'')
   \<and> (70 < score \<longrightarrow> label_from_score score = ''GOOD_SAFE'')
   \<and> (60 \<le> score \<and> score \<le> 70 \<longrightarrow> label_from_score score = ''SUSPICIOUS'')
   \<and> label_from_score 49 = ''LOW_QUALITY''
   \<and> label_from_score 50 = ''SUSPICIOUS''
   \<and> label_from_score 59 = ''SUSPICIOUS''
   \<and> label_from_score 60 = ''SUSPICIOUS''
   \<and> label_from_score 70 = ''SUSPICIOUS''
   \<and> label_from_score 71 = ''GOOD_SAFE''
   \<and> label_from_score 100 = ''GOOD_SAFE''"
  by (simp add: label_from_score_def)

theorem label_from_score_mapping_witness:
  "(49::int) < 50 \<and> label_from_score 49 = ''LOW_QUALITY''
   \<and> (50::int) \<le> 55 \<and> (55::int) < 60 \<and> label_from_score 55 = ''SUSPICIOUS''
   \<and> (70::int) < 85 \<and> label_from_score 85 = ''GOOD_SAFE''
   \<and> (60::int) \<le> 65 \<and> (65::int) \<le> 70 \<and> label_from_score 65 = ''SUSPICIOUS''"
  using label_from_score_mapping [of 49] label_from_score_mapping [of 55]
    label_from_score_mapping [of 85] label_from_score_mapping [of 65]
  by simp




text \<open>
  C3 (as amended).  A result with status OK holds the signals mapping exactly when it comes
  from content scoring, that is, when \<open>forced_good\<close> is false; the mapping then has the keys
  \<open>word_count\<close>, \<open>thin_content\<close>, \<open>lorem_ipsum\<close> and \<open>no_https\<close>.  The two forced-good
  results, of the allowlist and of the redirect fast path, have no \<open>signals\<close> field.
\<close>

theorem signals_field_iff_scored:
  "map_of (fst (analyze_target e user_input log)) ''status'' = Some (PStr ''OK'') \<longrightarrow>
     (map_of (fst (analyze_target e user_input log)) ''forced_good'' = Some (PBool True)
        \<and> map_of (fst (analyze_target e user_input log)) ''signals'' = None)
     \<or> (map_of (fst (analyze_target e user_input log)) ''forced_good'' = Some (PBool False)
        \<and> (\<exists>sg. map_of (fst (analyze_target e user_input log)) ''signals'' = Some (PDict sg)
               \<and> map fst sg = [''word_count'', ''thin_content'', ''lorem_ipsum'', ''no_https'']))"
proof (rule analyze_cases [where e = e and user_input = user_input and log = log])
  assume "is_trusted e (extract_host e user_input)"
  then show ?thesis by (simp add: analyze_trusted)
next
  fix err log'
  assume "\<not> is_trusted e (extract_host e user_input)"
    "fetch_final e user_input log = (Failed err, log')"
  then show ?thesis by (simp add: analyze_failed)
next
  fix final_url html log'
  assume "\<not> is_trusted e (extract_host e user_input)"
    "fetch_final e user_input log = (Fetched final_url html, log')"
    "is_trusted e (extract_host e final_url)"
  then show ?thesis by (simp add: analyze_redirect_trusted)
next
  fix final_url html log'
  assume "\<not> is_trusted e (extract_host e user_input)"
    "fetch_final e user_input log = (Fetched final_url html, log')"
    "\<not> is_trusted e (extract_host e final_url)"
  then show ?thesis by (simp add: analyze_scored signals_quick_risk)
qed

theorem signals_field_iff_scored_witness:
  "map_of (fst (analyze_target env_offline ''youtube.com'' [])) ''status'' = Some (PStr ''OK'')
   \<and> map_of (fst (analyze_target env_offline ''youtube.com'' [])) ''forced_good''
       = Some (PBool True)
   \<and> map_of (fst (analyze_target env_offline ''youtube.com'' [])) ''signals'' = None"
proof -
  have h: "is_trusted env_offline (extract_host env_offline ''youtube.com'')"
    by (simp add: host_youtube trusted_youtube)
  have s: "map_of (fst (analyze_target env_offline ''youtube.com'' [])) ''status''
            = Some (PStr ''OK'')"
    by (simp add: analyze_trusted [OF h])
  have f: "map_of (fst (analyze_target env_offline ''youtube.com'' [])) ''forced_good''
            \<noteq> Some (PBool False)"
    by (simp add: analyze_trusted [OF h])
  from signals_field_iff_scored [of env_offline "''youtube.com''" "[]"] s f
  show ?thesis by blast
qed

text \<open>
  The claim as stated fails at \<open>youtube.com\<close>: the result of the allowlist fast path has
  status OK and no \<open>signals\<close> field.
\<close>

theorem signals_field_counterexample:
  "map_of (fst (analyze_target env_offline ''youtube.com'' [])) ''status'' = Some (PStr ''OK'')
   \<and> map_of (fst (analyze_target env_offline ''youtube.com'' [])) ''signals'' = None
   \<and> ''signals'' \<notin> fst ` set (fst (analyze_target env_offline ''youtube.com'' []))"
proof -
  have h: "is_trusted env_offline (extract_host env_offline ''youtube.com'')"
    by (simp add: host_youtube trusted_youtube)
  show ?thesis by (simp add: analyze_trusted [OF h])
qed



text \<open>
  C5.  On the content-scoring path the score is \<open>max(0, 100 - total)\<close>, where \<open>total\<close> is
  the scorer's risk plus 25 when the lowercased final URL does not start with \<open>https://\<close>;
  \<open>total\<close> is 20, 30 and 25 for the signals \<open>thin_content\<close>, \<open>lorem_ipsum\<close> and \<open>no_https\<close>
  that are true.  So of two scored results, the one in which every true signal of the other
  is true as well has the score that is lower or equal.
\<close>

theorem score_monotone_in_signals:
  assumes "\<not> is_trusted e1 (extract_host e1 input1)"
    and "fetch_final e1 input1 log1 = (Fetched url1 html1 , log1')"
    and "\<not> is_trusted e1 (extract_host e1 url1)"
    and "\<not> is_trusted e2 (extract_host e2 input2)"
    and "fetch_final e2 input2 log2 = (Fetched url2 html2, log2')"
    and "\<not> is_trusted e2 (extract_host e2 url2)"
    and "\<forall>k \<in> {''thin_content'', ''lorem_ipsum'', ''no_https''}.
           signal_on (fst (analyze_target e1 input1 log1)) k
             \<longrightarrow> signal_on (fst (analyze_target e2 input2 log2)) k"
  shows "map_of (fst (analyze_target e1 input1 log1)) ''score''
           = Some (PInt (max 0 (100 - total_risk e1 url1 html1)))
    \<and> total_risk e1 url1 html1 =
          (if signal_on (fst (analyze_target e1 input1 log1)) ''thin_content'' then 20 else 0)
        + (if signal_on (fst (analyze_target e1 input1 log1)) ''lorem_ipsum'' then 30 else 0)
        + (if signal_on (fst (analyze_target e1 input1 log1)) ''no_https'' then 25 else 0)
    \<and> result_score (fst (analyze_target e2 input2 log2))
          \<le> result_score (fst (analyze_target e1 input1 log1))"
proof -
  let ?r1 = "fst (analyze_target e1 input1 log1)"
  let ?r2 = "fst (analyze_target e2 input2 log2)"
  have score: "map_of ?r1 ''score'' = Some (PInt (max 0 (100 - total_risk e1 url1 html1)))"
    by (simp add: analyze_scored [OF assms(1-3)])
  have t1: "total_risk e1 url1 html1 =
          (if signal_on ?r1 ''thin_content'' then 20 else 0)
        + (if signal_on ?r1 ''lorem_ipsum'' then 30 else 0)
        + (if signal_on ?r1 ''no_https'' then 25 else 0)"
    by (rule total_risk_by_signals [OF assms(1-3)])
  have t2: "total_risk e2 url2 html2 =
          (if signal_on ?r2 ''thin_content'' then 20 else 0)
        + (if signal_on ?r2 ''lorem_ipsum'' then 30 else 0)
        + (if signal_on ?r2 ''no_https'' then 25 else 0)"
    by (rule total_risk_by_signals [OF assms(4-6)])
  from assms(7) have
    "signal_on ?r1 ''thin_content'' \<longrightarrow> signal_on ?r2 ''thin_content''"
    "signal_on ?r1 ''lorem_ipsum'' \<longrightarrow> signal_on ?r2 ''lorem_ipsum''"
    "signal_on ?r1 ''no_https'' \<longrightarrow> signal_on ?r2 ''no_https''"
    by simp_all
  with t1 t2 have "total_risk e1 url1 html1 \<le> total_risk e2 url2 html2"
    by (auto split: if_splits)
  then have "result_score ?r2 \<le> result_score ?r1"
    by (simp add: scored_signals(4) [OF assms(1-3)] scored_signals(4) [OF assms(4-6)])
  with score t1 show ?thesis by blast
qed

theorem score_monotone_in_signals_witness:
  "\<not> is_trusted (env_page ''https://example.com/'' ''Lorem ipsum dolor sit amet'')
        (extract_host (env_page ''https://example.com/'' ''Lorem ipsum dolor sit amet'')
           ''example.com'')
   \<and> fetch_final (env_page ''https://example.com/'' ''Lorem ipsum dolor sit amet'')
         ''example.com'' []
       = (Fetched ''https://example.com/'' ''Lorem ipsum dolor sit amet'',
          [''https://example.com/''])
   \<and> \<not> is_trusted (env_page ''https://example.com/'' ''Lorem ipsum dolor sit amet'')
        (extract_host (env_page ''https://example.com/'' ''Lorem ipsum dolor sit amet'')
           ''https://example.com/'')
   \<and> \<not> is_trusted (env_page ''http://example.com/'' ''Lorem ipsum dolor sit amet'')
        (extract_host (env_page ''http://example.com/'' ''Lorem ipsum dolor sit amet'')
           ''example.com'')
   \<and> fetch_final (env_page ''http://example.com/'' ''Lorem ipsum dolor sit amet'')
         ''example.com'' []
       = (Fetched ''http://example.com/'' ''Lorem ipsum dolor sit amet'',
          [''https://example.com/''])
   \<and> \<not> is_trusted (env_page ''http://example.com/'' ''Lorem ipsum dolor sit amet'')
        (extract_host (env_page ''http://example.com/'' ''Lorem ipsum dolor sit amet'')
           ''http://example.com/'')
   \<and> map_of (fst (analyze_target (env_page ''https://example.com/'' ''Lorem ipsum dolor sit amet'')
                     ''example.com'' [])) ''score'' = Some (PInt 50)
   \<and> result_score (fst (analyze_target
         (env_page ''http://example.com/'' ''Lorem ipsum dolor sit amet'') ''example.com'' []))
       = 25
   \<and> result_score (fst (analyze_target
         (env_page ''http://example.com/'' ''Lorem ipsum dolor sit amet'') ''example.com'' []))
       \<le> result_score (fst (analyze_target
         (env_page ''https://example.com/'' ''Lorem ipsum dolor sit amet'') ''example.com'' []))"
proof -
  let ?b = "''Lorem ipsum dolor sit amet''"
  let ?e1 = "env_page ''https://example.com/'' ?b"
  let ?e2 = "env_page ''http://example.com/'' ?b"
  have u1: "urlparse ?e1 = urlparse env_offline" and u2: "urlparse ?e2 = urlparse env_offline"
    by (simp_all add: env_page_def env_offline_def)
  have v1: "visible_text ?e1 = strip" and v2: "visible_text ?e2 = strip"
    by (simp_all add: env_page_def)
  have a1: "\<not> is_trusted ?e1 (extract_host ?e1 ''example.com'')"
    by (simp add: extract_host_cong_env [OF u1] is_trusted_cong_env [OF u1]
        host_example untrusted_example)
  have a2: "\<not> is_trusted ?e2 (extract_host ?e2 ''example.com'')"
    by (simp add: extract_host_cong_env [OF u2] is_trusted_cong_env [OF u2]
        host_example untrusted_example)
  have f1: "fetch_final ?e1 ''example.com'' []
      = (Fetched ''https://example.com/'' ?b, [''https://example.com/''])"
    by code_simp
  have f2: "fetch_final ?e2 ''example.com'' []
      = (Fetched ''http://example.com/'' ?b, [''https://example.com/''])"
    by code_simp
  have c1: "\<not> is_trusted ?e1 (extract_host ?e1 ''https://example.com/'')"
    by (simp add: extract_host_cong_env [OF u1] is_trusted_cong_env [OF u1]
        host_example_urls untrusted_example)
  have c2: "\<not> is_trusted ?e2 (extract_host ?e2 ''http://example.com/'')"
    by (simp add: extract_host_cong_env [OF u2] is_trusted_cong_env [OF u2]
        host_example_urls untrusted_example)
  have s2: "signal_on (fst (analyze_target ?e2 ''example.com'' [])) ''thin_content''"
    "signal_on (fst (analyze_target ?e2 ''example.com'' [])) ''lorem_ipsum''"
    "signal_on (fst (analyze_target ?e2 ''example.com'' [])) ''no_https''"
    by (simp_all add: scored_signals [OF a2 f2 c2] v2 lorem_text lorem_words
        lower_example_urls)
  then have sub: "\<forall>k \<in> {''thin_content'', ''lorem_ipsum'', ''no_https''}.
      signal_on (fst (analyze_target ?e1 ''example.com'' [])) k
        \<longrightarrow> signal_on (fst (analyze_target ?e2 ''example.com'' [])) k"
    by simp
  have t1: "total_risk ?e1 ''https://example.com/'' ?b = 50"
    by (simp add: total_risk_def risk_quick_risk v1 lorem_text lorem_words
        lower_example_urls)
  have t2: "total_risk ?e2 ''http://example.com/'' ?b = 75"
    by (simp add: total_risk_def risk_quick_risk v2 lorem_text lorem_words
        lower_example_urls)
  have r2: "result_score (fst (analyze_target ?e2 ''example.com'' [])) = 25"
    by (simp add: scored_signals(4) [OF a2 f2 c2] t2)
  from score_monotone_in_signals [OF a1 f1 c1 a2 f2 c2 sub] a1 f1 c1 a2 f2 c2 r2
  show ?thesis by (simp add: t1)
qed

text \<open>
  C6.  For every page, with \<open>text\<close> the visible text after collapsing whitespace and
  lowercasing, the scorer's risk is 20 if \<open>text\<close> has fewer than 200 whitespace-separated
  words, else 0, plus 30 if \<open>text\<close> contains \<open>lorem ipsum\<close> or \<open>dolor sit amet\<close>, else 0.
  Its signals always hold \<open>word_count\<close> as a number, and \<open>thin_content\<close> and \<open>lorem_ipsum\<close>
  as booleans.
\<close>

theorem quick_risk_points_and_signals:
  "risk (quick_risk_from_html e html) =
       (if length (words_ws (lower (collapse_ws (visible_text e html)))) < 200 then 20 else 0)
     + (if contains (lower (collapse_ws (visible_text e html))) ''lorem ipsum''
           \<or> contains (lower (collapse_ws (visible_text e html))) ''dolor sit amet''
        then 30 else 0)
   \<and> map_of (signals (quick_risk_from_html e html)) ''word_count''
       = Some (PInt (int (length (words_ws (lower (collapse_ws (visible_text e html)))))))
   \<and> map_of (signals (quick_risk_from_html e html)) ''thin_content''
       = Some (PBool (length (words_ws (lower (collapse_ws (visible_text e html)))) < 200))
   \<and> map_of (signals (quick_risk_from_html e html)) ''lorem_ipsum''
       = Some (PBool (contains (lower (collapse_ws (visible_text e html))) ''lorem ipsum''
                      \<or> contains (lower (collapse_ws (visible_text e html))) ''dolor sit amet''))
   \<and> risk (quick_risk_from_html e html) \<in> {0, 20, 30, 50}"
  by (simp add: risk_quick_risk signals_quick_risk)

theorem quick_risk_points_and_signals_witness:
  "risk (quick_risk_from_html env_offline ''Lorem  ipsum dolor sit amet'') = 50
   \<and> map_of (signals (quick_risk_from_html env_offline ''Lorem  ipsum dolor sit amet''))
        ''word_count'' = Some (PInt 5)
   \<and> map_of (signals (quick_risk_from_html env_offline ''Lorem  ipsum dolor sit amet''))
        ''thin_content'' = Some (PBool True)
   \<and> map_of (signals (quick_risk_from_html env_offline ''Lorem  ipsum dolor sit amet''))
        ''lorem_ipsum'' = Some (PBool True)"
proof -
  have t: "lower (collapse_ws (visible_text env_offline ''Lorem  ipsum dolor sit amet''))
            = ''lorem ipsum dolor sit amet''"
    by (simp add: env_offline_def strip_def isspace_def lower_def lower_char_def)
  have w: "words_ws ''lorem ipsum dolor sit amet''
            = [''lorem'', ''ipsum'', ''dolor'', ''sit'', ''amet'']"
    by (simp add: words_ws.simps isspace_def)
  have c: "contains ''lorem ipsum dolor sit amet'' ''lorem ipsum''"
    by simp
  from quick_risk_points_and_signals [of env_offline "''Lorem  ipsum dolor sit amet''"]
  show ?thesis by (simp add: t w c)
qed

text \<open>
  C7.  \<open>analyze_target\<close> returns status ERROR exactly when its fetch step is reached and
  fails, that is, when \<open>is_trusted\<close> is false on the input host and \<open>fetch_final\<close> returns an
  error.  The result then carries the error message and has no \<open>score\<close> and no \<open>label\<close>
  field.  The fetch fails exactly when the host is empty or no candidate is accepted.  An
  empty or whitespace-only input gives the message "Empty input".  When the host is not
  empty and every candidate fails, the message is "Cannot access website (" followed by the
  error of the last candidate and ")"; that error is the text of the exception raised (a
  network error or a timeout), or "HTTP " and the status code of a response that was not
  accepted (status 400 or above, or an empty body).
\<close>

theorem error_status_iff_fetch_fails:
  "(map_of (fst (analyze_target e user_input log)) ''status'' = Some (PStr ''ERROR'')
      \<longleftrightarrow> \<not> is_trusted e (extract_host e user_input)
           \<and> (\<exists>m. fst (fetch_final e user_input log) = Failed m))
   \<and> (map_of (fst (analyze_target e user_input log)) ''status'' = Some (PStr ''ERROR'') \<longrightarrow>
        (\<exists>m. fst (fetch_final e user_input log) = Failed m
              \<and> map_of (fst (analyze_target e user_input log)) ''error'' = Some (PStr m))
        \<and> map fst (fst (analyze_target e user_input log))
            = [''status'', ''input'', ''host'', ''base_domain'', ''error'']
        \<and> map_of (fst (analyze_target e user_input log)) ''score'' = None
        \<and> map_of (fst (analyze_target e user_input log)) ''label'' = None)
   \<and> ((\<exists>m. fst (fetch_final e user_input log) = Failed m)
        \<longleftrightarrow> extract_host e user_input = []
             \<or> (\<forall>k < length (candidate_urls e user_input).
                   \<not> accepted (outcome_at (http_get e) log (candidate_urls e user_input) k)))
   \<and> ((\<forall>c \<in> set user_input. isspace c) \<longrightarrow>
        map_of (fst (analyze_target e user_input log)) ''status'' = Some (PStr ''ERROR'')
        \<and> map_of (fst (analyze_target e user_input log)) ''error'' = Some (PStr ''Empty input''))
   \<and> (\<not> is_trusted e (extract_host e user_input) \<and> extract_host e user_input \<noteq> []
        \<and> (\<forall>k < length (candidate_urls e user_input).
              \<not> accepted (outcome_at (http_get e) log (candidate_urls e user_input) k)) \<longrightarrow>
        map_of (fst (analyze_target e user_input log)) ''status'' = Some (PStr ''ERROR'')
        \<and> map_of (fst (analyze_target e user_input log)) ''error''
            = Some (PStr (''Cannot access website (''
                 @ error_text (outcome_at (http_get e) log (candidate_urls e user_input)
                                 (length (candidate_urls e user_input) - 1))
                 @ '')'')))"
proof -
  let ?r = "fst (analyze_target e user_input log)"
  have iff: "map_of ?r ''status'' = Some (PStr ''ERROR'')
      \<longleftrightarrow> \<not> is_trusted e (extract_host e user_input)
           \<and> (\<exists>m. fst (fetch_final e user_input log) = Failed m)"
  proof (rule analyze_cases [where e = e and user_input = user_input and log = log])
    assume "is_trusted e (extract_host e user_input)"
    then show ?thesis by (simp add: analyze_trusted)
  next
    fix err log'
    assume "\<not> is_trusted e (extract_host e user_input)"
      "fetch_final e user_input log = (Failed err, log')"
    then show ?thesis by (simp add: analyze_failed)
  next
    fix final_url html log'
    assume "\<not> is_trusted e (extract_host e user_input)"
      "fetch_final e user_input log = (Fetched final_url html, log')"
      "is_trusted e (extract_host e final_url)"
    then show ?thesis by (simp add: analyze_redirect_trusted)
  next
    fix final_url html log'
    assume "\<not> is_trusted e (extract_host e user_input)"
      "fetch_final e user_input log = (Fetched final_url html, log')"
      "\<not> is_trusted e (extract_host e final_url)"
    then show ?thesis by (simp add: analyze_scored)
  qed
  have shape: "(\<exists>m. fst (fetch_final e user_input log) = Failed m
                    \<and> map_of ?r ''error'' = Some (PStr m))
        \<and> map fst ?r = [''status'', ''input'', ''host'', ''base_domain'', ''error'']
        \<and> map_of ?r ''score'' = None \<and> map_of ?r ''label'' = None"
    if "map_of ?r ''status'' = Some (PStr ''ERROR'')"
  proof -
    from that iff obtain m where nt: "\<not> is_trusted e (extract_host e user_input)"
      and "fst (fetch_final e user_input log) = Failed m" by blast
    then obtain log' where f: "fetch_final e user_input log = (Failed m, log')"
      by (cases "fetch_final e user_input log") simp
    show ?thesis by (simp add: analyze_failed [OF nt f] f)
  qed
  have blank: "map_of ?r ''status'' = Some (PStr ''ERROR'')
        \<and> map_of ?r ''error'' = Some (PStr ''Empty input'')"
    if "\<forall>c \<in> set user_input. isspace c"
  proof -
    from that have h: "extract_host e user_input = []" by (rule extract_host_blank)
    then have nt: "\<not> is_trusted e (extract_host e user_input)" by (simp add: not_trusted_Nil)
    from h have f: "fetch_final e user_input log = (Failed ''Empty input'', log)"
      by (simp add: fetch_final_unfold)
    show ?thesis by (simp add: analyze_failed [OF nt f])
  qed
  have allfail: "map_of ?r ''status'' = Some (PStr ''ERROR'')
        \<and> map_of ?r ''error''
            = Some (PStr (''Cannot access website (''
                 @ error_text (outcome_at (http_get e) log (candidate_urls e user_input)
                                 (length (candidate_urls e user_input) - 1))
                 @ '')''))"
    if nt: "\<not> is_trusted e (extract_host e user_input)"
      and ne: "extract_host e user_input \<noteq> []"
      and af: "\<forall>k < length (candidate_urls e user_input).
              \<not> accepted (outcome_at (http_get e) log (candidate_urls e user_input) k)"
  proof -
    have c: "candidate_urls e user_input \<noteq> []" by (simp add: candidate_urls_def)
    from ne have f: "fetch_final e user_input log =
        (Failed (''Cannot access website (''
           @ error_text (outcome_at (http_get e) log (candidate_urls e user_input)
                           (length (candidate_urls e user_input) - 1))
           @ '')''), log @ candidate_urls e user_input)"
      by (simp add: fetch_final_unfold try_candidates_all_fail [OF af] c)
    show ?thesis by (simp add: analyze_failed [OF nt f])
  qed
  from iff shape blank allfail fetch_final_Failed_iff [of e user_input log]
  show ?thesis by blast
qed

theorem error_status_iff_fetch_fails_witness:
  "list_all isspace ''   ''
   \<and> map_of (fst (analyze_target env_offline ''   '' [])) ''status'' = Some (PStr ''ERROR'')
   \<and> map_of (fst (analyze_target env_offline ''   '' [])) ''error'' = Some (PStr ''Empty input'')
   \<and> \<not> is_trusted env_offline (extract_host env_offline ''example.com'')
   \<and> extract_host env_offline ''example.com'' \<noteq> []
   \<and> list_all (\<lambda>k. \<not> accepted (outcome_at (http_get env_offline) []
                                   (candidate_urls env_offline ''example.com'') k))
         [0 ..< length (candidate_urls env_offline ''example.com'')]
   \<and> map_of (fst (analyze_target env_offline ''example.com'' [])) ''status''
       = Some (PStr ''ERROR'')
   \<and> map_of (fst (analyze_target env_offline ''example.com'' [])) ''error''
       = Some (PStr ''Cannot access website (connection refused)'')
   \<and> map_of (fst (analyze_target env_offline ''example.com'' [])) ''score'' = None
   \<and> map_of (fst (analyze_target env_offline ''example.com'' [])) ''label'' = None"
proof -
  have b: "\<forall>c \<in> set ''   ''. isspace c"
    by (simp add: isspace_def)
  have nt: "\<not> is_trusted env_offline (extract_host env_offline ''example.com'')"
    by (simp add: host_example untrusted_example)
  have ne: "extract_host env_offline ''example.com'' \<noteq> []"
    by (simp add: host_example)
  have out: "outcome_at (http_get env_offline) [] cands k = Raises ''connection refused''"
    for cands k
    by (simp add: outcome_at_def env_offline_def)
  have af: "\<forall>k < length (candidate_urls env_offline ''example.com'').
         \<not> accepted (outcome_at (http_get env_offline) []
                        (candidate_urls env_offline ''example.com'') k)"
    by (simp add: out accepted_def)
  have et: "error_text (Raises ''connection refused'') = ''connection refused''"
    by (simp add: error_text_def)
  from error_status_iff_fetch_fails [of env_offline "''   ''" "[]"]
    error_status_iff_fetch_fails [of env_offline "''example.com''" "[]"]
    b nt ne af
  show ?thesis by (simp add: out et list_all_iff)
qed

text \<open>
  C8 (as amended).  \<open>base_domain (base_domain h) = base_domain h\<close> holds exactly for the
  hosts \<open>h\<close> whose root domain does not begin with a dot.  It holds in particular for every
  host that has no two dots in a row, that is, no empty label between dots.
\<close>

theorem base_domain_idempotent_iff:
  "(base_domain (base_domain h) = base_domain h \<longleftrightarrow> \<not> prefix ''.'' (base_domain h))
   \<and> (\<not> contains h ''..'' \<longrightarrow> base_domain (base_domain h) = base_domain h)"
  using base_domain_no_dot_fixed [of h] base_domain_dot_moves [of h]
    base_domain_no_leading_dot [of h]
  by blast

theorem base_domain_idempotent_iff_witness:
  "\<not> contains ''WWW.Example.co.uk.'' ''..''
   \<and> base_domain ''WWW.Example.co.uk.'' = ''example.co.uk''
   \<and> base_domain (base_domain ''WWW.Example.co.uk.'') = base_domain ''WWW.Example.co.uk.''"
proof -
  have c: "\<not> contains ''WWW.Example.co.uk.'' ''..''"
    by simp
  have b: "base_domain ''WWW.Example.co.uk.'' = ''example.co.uk''"
    by code_simp
  from base_domain_idempotent_iff [of "''WWW.Example.co.uk.''"] c b
  show ?thesis by simp
qed

text \<open>
  The claim as stated fails at the host \<open>a..b\<close>: its labels are \<open>a\<close>, the empty label and
  \<open>b\<close>, its root domain is the last two joined, \<open>.b\<close>, and the root domain of \<open>.b\<close> is \<open>b\<close>.
\<close>

theorem base_domain_idempotent_counterexample:
  "base_domain ''a..b'' = ''.b''
   \<and> base_domain (base_domain ''a..b'') = ''b''
   \<and> base_domain (base_domain ''a..b'') \<noteq> base_domain ''a..b''"
proof -
  have 1: "base_domain ''a..b'' = ''.b''" by code_simp
  have 2: "base_domain ''.b'' = ''b''" by code_simp
  show ?thesis by (simp add: 1 2)
qed

text \<open>
  C9.  \<open>extract_host\<close> returns a string for every input and every behaviour of the URL
  parser, which is the only operation in it that can raise: an empty or whitespace-only
  input gives the empty string; when the parser raises, the result is the trimmed input,
  lowercased and trimmed again, of whitespace and then of slashes; when the parser returns,
  the result is the host cleaned out of the parse result.
\<close>

theorem extract_host_never_fails:
  "((\<forall>c \<in> set user_input. isspace c) \<longrightarrow> extract_host e user_input = [])
   \<and> (\<not> (\<forall>c \<in> set user_input. isspace c) \<longrightarrow>
        (\<forall>ex. urlparse e (if contains (strip user_input) ''://'' then strip user_input
                          else ''https://'' @ strip user_input) = Inl ex \<longrightarrow>
              extract_host e user_input = strip_chars ''/'' (strip (lower (strip user_input))))
      \<and> (\<forall>p. urlparse e (if contains (strip user_input) ''://'' then strip user_input
                         else ''https://'' @ strip user_input) = Inr p \<longrightarrow>
              extract_host e user_input = host_from_parts p))"
  by (auto simp: extract_host_def Let_def strip_eq_Nil_iff [symmetric])

theorem extract_host_never_fails_witness:
  "list_all isspace '' '' \<and> extract_host env_offline '' '' = []
   \<and> \<not> (\<forall>c \<in> set '' [Example.COM/ ''. isspace c)
   \<and> urlparse env_offline ''https://[Example.COM/'' = Inl (ValueError ''Invalid IPv6 URL'')
   \<and> extract_host env_offline '' [Example.COM/ '' = ''[example.com''
   \<and> \<not> (\<forall>c \<in> set ''User@Example.COM:8080/a''. isspace c)
   \<and> urlparse env_offline ''https://User@Example.COM:8080/a''
       = Inr \<lparr>netloc = ''User@Example.COM:8080'', path = ''/a''\<rparr>
   \<and> extract_host env_offline ''User@Example.COM:8080/a'' = ''example.com''"
proof -
  have b: "\<forall>c \<in> set '' ''. isspace c"
    by (simp add: isspace_def)
  have s1: "strip '' [Example.COM/ '' = ''[Example.COM/''"
    by (simp add: strip_def isspace_def)
  have n1: "\<not> (\<forall>c \<in> set '' [Example.COM/ ''. isspace c)"
    by (simp add: isspace_def)
  have p1: "urlparse env_offline ''https://[Example.COM/'' = Inl (ValueError ''Invalid IPv6 URL'')"
    by code_simp
  have f1: "strip_chars ''/'' (strip (lower ''[Example.COM/'')) = ''[example.com''"
    by (simp add: strip_chars_def strip_def isspace_def lower_def lower_char_def)
  have s2: "strip ''User@Example.COM:8080/a'' = ''User@Example.COM:8080/a''"
    by (simp add: strip_def isspace_def)
  have n2: "\<not> (\<forall>c \<in> set ''User@Example.COM:8080/a''. isspace c)"
    by (simp add: isspace_def)
  have p2: "urlparse env_offline ''https://User@Example.COM:8080/a''
             = Inr \<lparr>netloc = ''User@Example.COM:8080'', path = ''/a''\<rparr>"
    by code_simp
  have h2: "host_from_parts \<lparr>netloc = ''User@Example.COM:8080'', path = ''/a''\<rparr> = ''example.com''"
    by code_simp
  from extract_host_never_fails [of "'' ''" env_offline]
    extract_host_never_fails [of "'' [Example.COM/ ''" env_offline]
    extract_host_never_fails [of "''User@Example.COM:8080/a''" env_offline]
    b n1 n2 p1 p2
  show ?thesis by (simp add: s1 s2 f1 h2 list_all_iff)
qed

text \<open>
  C10.  When the allowlist fast path fires on the input host, the result holds
  \<open>final_url\<close> equal to \<open>https://\<close> followed by the host and \<open>/\<close>, \<open>final_host\<close> equal to
  the input host and \<open>final_base_domain\<close> equal to the input root domain, although no URL
  was requested.
\<close>

theorem allowlist_fast_path_final_fields:
  assumes "is_trusted e (extract_host e user_input)"
  shows "map_of (fst (analyze_target e user_input log)) ''final_url''
        = Some (PStr (''https://'' @ extract_host e user_input @ ''/''))
    \<and> map_of (fst (analyze_target e user_input log)) ''final_host''
        = Some (PStr (extract_host e user_input))
    \<and> map_of (fst (analyze_target e user_input log)) ''final_base_domain''
        = Some (PStr (base_domain (extract_host e user_input)))
    \<and> map_of (fst (analyze_target e user_input log)) ''host''
        = Some (PStr (extract_host e user_input))
    \<and> map_of (fst (analyze_target e user_input log)) ''base_domain''
        = Some (PStr (base_domain (extract_host e user_input)))
    \<and> snd (analyze_target e user_input log) = log"
  by (simp add: analyze_trusted [OF assms])

theorem allowlist_fast_path_final_fields_witness:
  "is_trusted env_offline (extract_host env_offline ''https://www.youtube.com/watch?v=1'')
    \<and> map_of (fst (analyze_target env_offline ''https://www.youtube.com/watch?v=1'' []))
         ''final_url'' = Some (PStr ''https://www.youtube.com/'')
    \<and> map_of (fst (analyze_target env_offline ''https://www.youtube.com/watch?v=1'' []))
         ''final_host'' = Some (PStr ''www.youtube.com'')
    \<and> map_of (fst (analyze_target env_offline ''https://www.youtube.com/watch?v=1'' []))
         ''final_base_domain'' = Some (PStr ''youtube.com'')
    \<and> snd (analyze_target env_offline ''https://www.youtube.com/watch?v=1'' []) = []"
proof -
  have eh: "extract_host env_offline ''https://www.youtube.com/watch?v=1'' = ''www.youtube.com''"
    by code_simp
  have bd: "base_domain ''www.youtube.com'' = ''youtube.com''"
    by code_simp
  have h: "is_trusted env_offline (extract_host env_offline ''https://www.youtube.com/watch?v=1'')"
    unfolding eh by code_simp
  from allowlist_fast_path_final_fields [OF h, of "[]"] h show ?thesis
    by (simp add: eh bd)
qed

end
